theory Spec2Isabelle
  imports Main "HOL-Library.AList" "HOL-Library.Word"
begin

unbundle bit_operations_syntax

section \<open>JavaScript strings\<close>

text \<open>
  A JavaScript string is modelled as a \<open>string\<close>: a list of characters, each a code
  unit below 256 (the Latin-1 range). Within that range the functions below are the
  ECMAScript ones: \<open>trim\<close> and the regular expression class \<open>\s\<close> remove exactly the
  code units 9 to 13, 32 and 160, and \<open>toLowerCase\<close> maps A-Z and the accented capitals
  192 to 222 (but 215) to the letter 32 above. Text with code units above 255 is outside
  the model.
\<close>

abbreviation dq :: char where "dq \<equiv> CHR 0x22"
abbreviation bslash :: char where "bslash \<equiv> CHR 0x5C"
abbreviation nl :: char where "nl \<equiv> CHR 0x0A"
abbreviation cr :: char where "cr \<equiv> CHR 0x0D"
abbreviation comma :: char where "comma \<equiv> CHR 0x2C"

definition isSpace :: "char \<Rightarrow> bool" where
  "isSpace c = (c = CHR 0x09 \<or> c = CHR 0x0A \<or> c = CHR 0x0B \<or> c = CHR 0x0C \<or> c = CHR 0x0D
                \<or> c = CHR 0x20 \<or> c = CHR 0xA0)"

definition trim :: "string \<Rightarrow> string" where
  "trim s = rev (dropWhile isSpace (rev (dropWhile isSpace s)))"

definition lowerChar :: "char \<Rightarrow> char" where
  "lowerChar c =
     (let n = of_char c :: nat in
      if (65 \<le> n \<and> n \<le> 90) \<or> (192 \<le> n \<and> n \<le> 222 \<and> n \<noteq> 215) then char_of (n + 32) else c)"

definition toLowerCase :: "string \<Rightarrow> string" where
  "toLowerCase s = map lowerChar s"

text \<open>\<open>s.startsWith(t)\<close>, \<open>s.endsWith(t)\<close> and \<open>s.includes(t)\<close>.\<close>

fun startsWith :: "string \<Rightarrow> string \<Rightarrow> bool" where
  "startsWith s [] = True"
| "startsWith [] (t # ts) = False"
| "startsWith (c # cs) (t # ts) = (c = t \<and> startsWith cs ts)"

definition endsWith :: "string \<Rightarrow> string \<Rightarrow> bool" where
  "endsWith s t = startsWith (rev s) (rev t)"

fun includes_str :: "string \<Rightarrow> string \<Rightarrow> bool" where
  "includes_str [] t = (t = [])"
| "includes_str (c # cs) t = (startsWith (c # cs) t \<or> includes_str cs t)"

text \<open>
  \<open>s.substring(a, b)\<close>: both indices are clamped to the length, and swapped when the
  first is the larger one.
\<close>

definition substring :: "string \<Rightarrow> nat \<Rightarrow> nat \<Rightarrow> string" where
  "substring s a b =
     (let a' = min a (length s); b' = min b (length s);
          lo = min a' b'; hi = max a' b'
      in take (hi - lo) (drop lo s))"

text \<open>
  \<open>s.split(c)\<close> for a one-character separator: the pieces between the separators, the
  empty pieces too; the empty string gives one empty piece.
\<close>

fun splitAcc :: "char \<Rightarrow> string \<Rightarrow> string list \<Rightarrow> string \<Rightarrow> string list" where
  "splitAcc sep cur acc [] = acc @ [cur]"
| "splitAcc sep cur acc (c # cs) =
     (if c = sep then splitAcc sep [] (acc @ [cur]) cs else splitAcc sep (cur @ [c]) acc cs)"

definition splitOn :: "char \<Rightarrow> string \<Rightarrow> string list" where
  "splitOn sep s = splitAcc sep [] [] s"

text \<open>\<open>xs.join(c)\<close>.\<close>

fun joinWith :: "char \<Rightarrow> string list \<Rightarrow> string" where
  "joinWith sep [] = []"
| "joinWith sep [x] = x"
| "joinWith sep (x # y # ys) = x @ sep # joinWith sep (y # ys)"

text \<open>
  \<open>s.split(/\r?\n/)\<close>: the text is cut at every line feed, and a carriage return
  directly before the line feed belongs to the separator.
\<close>

definition stripCr :: "string \<Rightarrow> string" where
  "stripCr s = (if s \<noteq> [] \<and> last s = cr then butlast s else s)"

definition splitLines :: "string \<Rightarrow> string list" where
  "splitLines s = (let ps = splitOn nl s in map stripCr (butlast ps) @ [last ps])"

text \<open>\<open>s.replace(/""/g, '"')\<close>: pairs of double quotes, left to right, become one.\<close>

fun replaceDq :: "string \<Rightarrow> string" where
  "replaceDq (a # b # cs) = (if a = dq \<and> b = dq then dq # replaceDq cs else a # replaceDq (b # cs))"
| "replaceDq cs = cs"

text \<open>\<open>s.replace(/"/g, '""')\<close>: every double quote is doubled.\<close>

fun doubleDq :: "string \<Rightarrow> string" where
  "doubleDq [] = []"
| "doubleDq (c # cs) = (if c = dq then dq # dq # doubleDq cs else c # doubleDq cs)"

section \<open>JavaScript values and objects\<close>

text \<open>
  The values a visitor object's field holds: a string, a number (the integer 0 or 1 of
  \<open>isBanned\<close>), \<open>null\<close> or \<open>undefined\<close>. An object is the list of its own properties in
  insertion order; assigning to a key that exists keeps its place. Reading a key the
  object does not have gives \<open>undefined\<close> (keys that name a member of
  \<open>Object.prototype\<close> are outside the model). The assignment \<open>row['__proto__'] = v\<close> with a
  string \<open>v\<close> creates no property.
\<close>

datatype jsval = JUndefined | JNull | JStr string | JNum int

type_synonym jsobj = "(string \<times> jsval) list"

definition getProp :: "jsobj \<Rightarrow> string \<Rightarrow> jsval" where
  "getProp obj k = (case map_of obj k of None \<Rightarrow> JUndefined | Some v \<Rightarrow> v)"

definition setProp :: "string \<Rightarrow> jsval \<Rightarrow> jsobj \<Rightarrow> jsobj" where
  "setProp k v obj = (if k = ''__proto__'' then obj else AList.update k v obj)"

text \<open>Truthiness: \<open>undefined\<close>, \<open>null\<close>, the empty string and 0 are falsy.\<close>

fun truthy :: "jsval \<Rightarrow> bool" where
  "truthy JUndefined = False"
| "truthy JNull = False"
| "truthy (JStr s) = (s \<noteq> [])"
| "truthy (JNum n) = (n \<noteq> 0)"

text \<open>
  \<open>Object.keys(obj)\<close>: the keys that are array indices (canonical decimal numerals
  below \<open>2^32 - 1\<close>) come first, in ascending numeric order, then the other keys in
  insertion order.
\<close>

definition isDigit :: "char \<Rightarrow> bool" where
  "isDigit c = (48 \<le> (of_char c :: nat) \<and> (of_char c :: nat) \<le> 57)"

definition digitsValue :: "string \<Rightarrow> nat" where
  "digitsValue s = foldl (\<lambda>n c. 10 * n + ((of_char c :: nat) - 48)) 0 s"

definition isArrayIndex :: "string \<Rightarrow> bool" where
  "isArrayIndex s = (s \<noteq> [] \<and> list_all isDigit s \<and> (s = ''0'' \<or> hd s \<noteq> CHR ''0'')
                     \<and> digitsValue s < 4294967295)"

definition objectKeys :: "jsobj \<Rightarrow> string list" where
  "objectKeys obj =
     (let ks = map fst obj
      in sort_key digitsValue (filter isArrayIndex ks) @ filter (\<lambda>k. \<not> isArrayIndex k) ks)"

text \<open>\<open>n.toString()\<close> for an integer.\<close>

fun natToString :: "nat \<Rightarrow> string" where
  "natToString n = (if n < 10 then [char_of (48 + n)] else natToString (n div 10) @ [char_of (48 + n mod 10)])"

definition intToString :: "int \<Rightarrow> string" where
  "intToString i = (if i < 0 then CHR ''-'' # natToString (nat (- i)) else natToString (nat i))"

section \<open>The CSV codec of the main process (main.js)\<close>

text \<open>
  The character scan of \<open>parseCsv\<close> (main.js, the loop over \<open>j\<close>): \<open>prev\<close> is
  \<open>line[j - 1]\<close> (\<open>None\<close> at \<open>j = 0\<close>), \<open>cur\<close> is \<open>line.substring(start, j)\<close>,
  \<open>vals\<close> the values pushed so far. At the end of the line the last value is pushed.
\<close>

definition unquote :: "string \<Rightarrow> string" where
  "unquote v = (if startsWith v [dq] \<and> endsWith v [dq]
                then replaceDq (substring v 1 (length v - 1)) else v)"

fun scanLine :: "char option \<Rightarrow> bool \<Rightarrow> string \<Rightarrow> string list \<Rightarrow> string \<Rightarrow> string list" where
  "scanLine prev inQuote cur vals [] = vals @ [unquote (trim cur)]"
| "scanLine prev inQuote cur vals (c # cs) =
     (if c = dq \<and> prev \<noteq> Some bslash then scanLine (Some c) (\<not> inQuote) (cur @ [c]) vals cs
      else if c = comma \<and> \<not> inQuote then scanLine (Some c) inQuote [] (vals @ [unquote (trim cur)]) cs
      else scanLine (Some c) inQuote (cur @ [c]) vals cs)"

definition lineValues :: "string \<Rightarrow> string list" where
  "lineValues line = scanLine None False [] [] line"

text \<open>
  \<open>headers.forEach((header, index) => ...)\<close>: the row object and the flag \<open>hasId\<close>
  after the headers from position \<open>index\<close> on.
\<close>

fun forEachHeader :: "string list \<Rightarrow> string list \<Rightarrow> nat \<Rightarrow> jsobj \<Rightarrow> bool \<Rightarrow> jsobj \<times> bool" where
  "forEachHeader vals [] index row hasId = (row, hasId)"
| "forEachHeader vals (header # hs) index row hasId =
     (let key = (if header = ''visitorId'' then ''id'' else header);
          v = (if index < length vals \<and> vals ! index \<noteq> [] then trim (vals ! index) else []);
          row' = setProp key (JStr v) row
      in forEachHeader vals hs (Suc index) row' (hasId \<or> (key = ''id'' \<and> truthy (getProp row' key))))"

definition parseRow :: "string list \<Rightarrow> string \<Rightarrow> jsobj \<times> bool" where
  "parseRow headers line = forEachHeader (lineValues line) headers 0 [] False"

definition parseCsv :: "string \<Rightarrow> jsobj list" where
  "parseCsv csvText =
     (let lines = filter (\<lambda>line. trim line \<noteq> []) (splitLines csvText)
      in if lines = [] then []
         else let headers = map trim (splitOn comma (hd lines))
              in map fst (filter snd (map (parseRow headers) (tl lines))))"

text \<open>\<open>stringifyCsv\<close> (main.js).\<close>

definition formatValue :: "jsval \<Rightarrow> string" where
  "formatValue v =
     (let needsQuotes = (case v of JStr s \<Rightarrow> comma \<in> set s \<or> dq \<in> set s | _ \<Rightarrow> False);
          formattedValue = (case v of JUndefined \<Rightarrow> [] | JNull \<Rightarrow> [] | JStr s \<Rightarrow> s
                                     | JNum n \<Rightarrow> intToString n)
      in if needsQuotes then dq # doubleDq formattedValue @ [dq] else formattedValue)"

definition stringifyCsv :: "jsobj list \<Rightarrow> string" where
  "stringifyCsv visitors =
     (if visitors = [] then []
      else let headers = objectKeys (hd visitors);
               headerRow = joinWith comma headers;
               rows = map (\<lambda>visitor. joinWith comma (map (\<lambda>header. formatValue (getProp visitor header)) headers)) visitors
           in joinWith nl (headerRow # rows))"

section \<open>The single-record export of the main process (main.js)\<close>

text \<open>
  The main process remembers the path of the last opened CSV file and reads and writes
  files through \<open>fs\<close>. The file system is a map from paths to contents, and every call
  of \<open>fs.readFileSync\<close> and \<open>fs.writeFileSync\<close> is logged. Reading a path that has no
  file throws; the handler catches every exception and returns its message as an error
  result (the message is the engine's: it is modelled by the name of the error). Writing
  to the remembered path is taken to succeed.
\<close>

datatype fsCall = ReadFileSync string | WriteFileSync string string

record mainState =
  lastUsedFilePath :: "string option"
  files :: "string \<rightharpoonup> string"
  fsCalls :: "fsCall list"

datatype saveResult = SaveSuccess | SaveError string

datatype jsError = TypeError | FileError | SqlError

text \<open>
  \<open>visitors.findIndex(v => v.id && updatedVisitor.id && v.id.trim() === updatedVisitor.id.trim())\<close>,
  from position \<open>i\<close> on: \<open>trim\<close> exists on strings only, so a truthy id that is not a
  string throws.
\<close>

fun findIndexFrom :: "jsobj \<Rightarrow> nat \<Rightarrow> jsobj list \<Rightarrow> jsError + nat option" where
  "findIndexFrom updatedVisitor i [] = Inr None"
| "findIndexFrom updatedVisitor i (v # vs) =
     (if truthy (getProp v ''id'') \<and> truthy (getProp updatedVisitor ''id'')
      then (case (getProp v ''id'', getProp updatedVisitor ''id'') of
              (JStr a, JStr b) \<Rightarrow> if trim a = trim b then Inr (Some i)
                                  else findIndexFrom updatedVisitor (Suc i) vs
            | _ \<Rightarrow> Inl TypeError)
      else findIndexFrom updatedVisitor (Suc i) vs)"

definition upsertVisitor :: "jsobj \<Rightarrow> jsobj list \<Rightarrow> jsError + jsobj list" where
  "upsertVisitor updatedVisitor visitors =
     (case findIndexFrom updatedVisitor 0 visitors of
        Inl e \<Rightarrow> Inl e
      | Inr (Some visitorIndex) \<Rightarrow> Inr (visitors[visitorIndex := updatedVisitor])
      | Inr None \<Rightarrow> Inr (visitors @ [updatedVisitor]))"

definition noFileSelected :: string where
  "noFileSelected = ''No file has been selected for saving yet.''"

definition errorMessage :: "jsError \<Rightarrow> string" where
  "errorMessage e = (case e of TypeError \<Rightarrow> ''TypeError'' | FileError \<Rightarrow> ''ENOENT'' | SqlError \<Rightarrow> ''SqlError'')"

definition updateAndSaveCsvFile :: "jsobj \<Rightarrow> mainState \<Rightarrow> saveResult \<times> mainState" where
  "updateAndSaveCsvFile updatedVisitor s =
     (case lastUsedFilePath s of
        None \<Rightarrow> (SaveError noFileSelected, s)
      | Some path \<Rightarrow>
          if path = [] then (SaveError noFileSelected, s)
          else let s1 = s\<lparr>fsCalls := fsCalls s @ [ReadFileSync path]\<rparr>
               in (case files s path of
                     None \<Rightarrow> (SaveError (errorMessage FileError), s1)
                   | Some fileContent \<Rightarrow>
                       (case upsertVisitor updatedVisitor (parseCsv fileContent) of
                          Inl e \<Rightarrow> (SaveError (errorMessage e), s1)
                        | Inr visitors \<Rightarrow>
                            let newCsvContent = stringifyCsv visitors
                            in (SaveSuccess,
                                s1\<lparr>files := (files s1)(path \<mapsto> newCsvContent),
                                   fsCalls := fsCalls s1 @ [WriteFileSync path newCsvContent]\<rparr>))))"

section \<open>The renderer (script.js)\<close>

subsection \<open>The visitors table\<close>

text \<open>
  The table \<open>visitors\<close> of the SQLite database: nine TEXT columns and the INTEGER
  column \<open>isBanned\<close>; \<open>None\<close> is NULL. The database is the rows of the table and, while
  a transaction is open, the rows as they were when it began.
\<close>

record visitor =
  id' :: "string option"
  firstName :: "string option"
  lastName :: "string option"
  flatNumber :: "string option"
  phoneNumber :: "string option"
  dateOfBirth :: "string option"
  scannedIdPicUrl :: "string option"
  isBanned :: "int option"
  notes' :: "string option"
  generalNotes :: "string option"

record database =
  rows :: "visitor list"
  txn :: "visitor list option"

definition dbBegin :: "database \<Rightarrow> jsError + database" where
  "dbBegin d = (case txn d of Some snapshot \<Rightarrow> Inl SqlError | None \<Rightarrow> Inr (d\<lparr>txn := Some (rows d)\<rparr>))"

definition dbCommit :: "database \<Rightarrow> jsError + database" where
  "dbCommit d = (case txn d of None \<Rightarrow> Inl SqlError | Some snapshot \<Rightarrow> Inr (d\<lparr>txn := None\<rparr>))"

definition dbRollback :: "database \<Rightarrow> jsError + database" where
  "dbRollback d = (case txn d of None \<Rightarrow> Inl SqlError | Some snapshot \<Rightarrow> Inr \<lparr>rows = snapshot, txn = None\<rparr>)"

text \<open>
  A bound parameter of a TEXT column: a string is stored as it is, a number as its
  numeral, \<open>null\<close> as NULL. Whether the engine accepts \<open>undefined\<close> is the engine's
  choice (see \<open>sqljsThrows\<close>); where it does, NULL is stored.
\<close>

definition toText :: "jsval \<Rightarrow> string option" where
  "toText v = (case v of JStr s \<Rightarrow> Some s | JNum n \<Rightarrow> Some (intToString n) | _ \<Rightarrow> None)"

text \<open>\<open>SELECT * FROM visitors WHERE id = ?\<close>, and the UPDATE and INSERT of \<open>handleImport\<close>.\<close>

definition selectById :: "string option \<Rightarrow> visitor list \<Rightarrow> visitor list" where
  "selectById visitorId tbl = filter (\<lambda>r. visitorId \<noteq> None \<and> id' r = visitorId) tbl"

definition updateRow :: "string option \<Rightarrow> jsobj \<Rightarrow> int \<Rightarrow> visitor \<Rightarrow> visitor" where
  "updateRow visitorId v banned r =
     (if visitorId \<noteq> None \<and> id' r = visitorId
      then r\<lparr>firstName := toText (getProp v ''firstName''),
             lastName := toText (getProp v ''lastName''),
             flatNumber := toText (getProp v ''flatNumber''),
             phoneNumber := toText (getProp v ''phoneNumber''),
             dateOfBirth := toText (getProp v ''dateOfBirth''),
             scannedIdPicUrl := toText (getProp v ''scannedIdPicUrl''),
             isBanned := Some banned,
             notes' := toText (getProp v ''notes'')\<rparr>
      else r)"

definition insertRow :: "string option \<Rightarrow> jsobj \<Rightarrow> int \<Rightarrow> visitor" where
  "insertRow visitorId v banned =
     \<lparr>id' = visitorId,
      firstName = toText (getProp v ''firstName''),
      lastName = toText (getProp v ''lastName''),
      flatNumber = toText (getProp v ''flatNumber''),
      phoneNumber = toText (getProp v ''phoneNumber''),
      dateOfBirth = toText (getProp v ''dateOfBirth''),
      scannedIdPicUrl = toText (getProp v ''scannedIdPicUrl''),
      isBanned = Some banned,
      notes' = toText (getProp v ''notes''),
      generalNotes = Some []\<rparr>"

subsection \<open>The CSV parser of the renderer\<close>

text \<open>
  \<open>parseCsv\<close> of script.js, the parser \<open>handleImport\<close> calls: the trimmed text is cut at
  line feeds and every line at commas; a line with fewer values than headers leaves the
  remaining fields \<open>undefined\<close>.
\<close>

fun assignFields :: "string list \<Rightarrow> string list \<Rightarrow> nat \<Rightarrow> jsobj \<Rightarrow> jsobj" where
  "assignFields vals [] index visitor = visitor"
| "assignFields vals (header # hs) index visitor =
     assignFields vals hs (Suc index)
       (setProp header (if index < length vals then JStr (vals ! index) else JUndefined) visitor)"

definition parseCsv_script :: "string \<Rightarrow> jsobj list" where
  "parseCsv_script csvText =
     (let lines = splitOn nl (trim csvText);
          headers = map trim (splitOn comma (hd lines))
      in map (\<lambda>line. assignFields (map trim (splitOn comma line)) headers 0 []) (tl lines))"

subsection \<open>Identifiers\<close>

text \<open>
  \<open>uuidv4\<close>: every \<open>x\<close> and \<open>y\<close> of the template is replaced by a hexadecimal digit
  computed from one draw \<open>r = Math.random() * 16 | 0\<close>, a number from 0 to 15. The draws
  are the sequence \<open>rnd\<close>; \<open>k\<close> is the number of draws made so far.
\<close>

definition hexDigit :: "4 word \<Rightarrow> char" where
  "hexDigit w = (if unat w < 10 then char_of (48 + unat w) else char_of (87 + unat w))"

fun uuidReplace :: "(nat \<Rightarrow> 4 word) \<Rightarrow> nat \<Rightarrow> string \<Rightarrow> string \<Rightarrow> string \<times> nat" where
  "uuidReplace rnd k acc [] = (acc, k)"
| "uuidReplace rnd k acc (c # cs) =
     (if c = CHR ''x'' then uuidReplace rnd (Suc k) (acc @ [hexDigit (rnd k)]) cs
      else if c = CHR ''y'' then uuidReplace rnd (Suc k) (acc @ [hexDigit (rnd k AND 3 OR 8)]) cs
      else uuidReplace rnd k (acc @ [c]) cs)"

definition uuidv4 :: "(nat \<Rightarrow> 4 word) \<Rightarrow> nat \<Rightarrow> string \<times> nat" where
  "uuidv4 rnd k = uuidReplace rnd k [] ''xxxxxxxx-xxxx-4xxx-yxxx-xxxxxxxxxxxx''"

text \<open>The format of a version-4 UUID, position by position.\<close>

definition isHexChar :: "char \<Rightarrow> bool" where
  "isHexChar c = (c \<in> set ''0123456789abcdef'')"

fun matchesTemplate :: "string \<Rightarrow> string \<Rightarrow> bool" where
  "matchesTemplate [] [] = True"
| "matchesTemplate (t # ts) (c # cs) =
     ((if t = CHR ''x'' then isHexChar c
       else if t = CHR ''y'' then c \<in> set ''89ab''
       else c = t) \<and> matchesTemplate ts cs)"
| "matchesTemplate ts cs = False"

definition isUuidV4 :: "string \<Rightarrow> bool" where
  "isUuidV4 u = matchesTemplate ''xxxxxxxx-xxxx-4xxx-yxxx-xxxxxxxxxxxx'' u"

subsection \<open>The batch import\<close>

text \<open>
  The statements of one row run in the SQL engine, which is not part of the repository:
  whether they throw is the parameter \<open>throws\<close>, a predicate of the table, the id and the
  row. \<open>sqljsThrows\<close> is the rule of sql.js, the engine the page loads: binding a
  parameter that is \<open>undefined\<close> throws.
\<close>

type_synonym engine = "visitor list \<Rightarrow> string option \<Rightarrow> jsobj \<Rightarrow> bool"

definition sqljsThrows :: engine where
  "sqljsThrows tbl visitorId v =
     (list_ex (\<lambda>k. getProp v k = JUndefined)
        [''firstName'', ''lastName'', ''flatNumber'', ''phoneNumber'', ''dateOfBirth'',
         ''scannedIdPicUrl'', ''notes''])"

definition rejected :: "jsobj \<Rightarrow> bool" where
  "rejected v = (\<not> truthy (getProp v ''firstName'') \<or> \<not> truthy (getProp v ''lastName''))"

text \<open>\<open>visitor.id || uuidv4()\<close>, with the number of draws made afterwards.\<close>

definition resolveId :: "(nat \<Rightarrow> 4 word) \<Rightarrow> nat \<Rightarrow> jsobj \<Rightarrow> jsval \<times> nat" where
  "resolveId rnd k v =
     (if truthy (getProp v ''id'') then (getProp v ''id'', k)
      else (JStr (fst (uuidv4 rnd k)), snd (uuidv4 rnd k)))"

definition bannedFlag :: "jsobj \<Rightarrow> int" where
  "bannedFlag v = (if getProp v ''isBanned'' = JStr ''true'' \<or> getProp v ''isBanned'' = JStr ''1'' then 1 else 0)"

text \<open>The statements of one accepted row: SELECT, then UPDATE or INSERT.\<close>

definition upsertRow :: "string option \<Rightarrow> jsobj \<Rightarrow> visitor list \<Rightarrow> visitor list" where
  "upsertRow visitorId v tbl =
     (if selectById visitorId tbl \<noteq> []
      then map (updateRow visitorId v (bannedFlag v)) tbl
      else tbl @ [insertRow visitorId v (bannedFlag v)])"

text \<open>
  The loop of \<open>handleImport\<close> over the parsed rows. Every accepted row changes the
  table of the database at once, inside the open transaction. The result is the table,
  the number of draws and \<open>importedCount\<close> after the rows; or, when the statements of a
  row throw, the exception together with the table as the rows before it left it.
\<close>

fun importLoop :: "engine \<Rightarrow> (nat \<Rightarrow> 4 word) \<Rightarrow> jsobj list \<Rightarrow> visitor list \<Rightarrow> nat \<Rightarrow> nat
                   \<Rightarrow> (jsError \<times> visitor list) + (visitor list \<times> nat \<times> nat)" where
  "importLoop throws rnd [] tbl k importedCount = Inr (tbl, k, importedCount)"
| "importLoop throws rnd (v # vs) tbl k importedCount =
     (if rejected v then importLoop throws rnd vs tbl k importedCount
      else let visitorId = toText (fst (resolveId rnd k v));
               k' = snd (resolveId rnd k v)
           in if throws tbl visitorId v then Inl (SqlError, tbl)
              else importLoop throws rnd vs (upsertRow visitorId v tbl) k' (Suc importedCount))"

datatype message = Imported nat | ImportFailed

record appState =
  db :: database
  localStorage :: "visitor list option"
  visitorsList :: "visitor list"
  selectedVisitorId :: "string option"
  messageBox :: "message option"

text \<open>
  \<open>handleImport\<close>: BEGIN, the loop, COMMIT, then the database is saved to local storage
  and the list is loaded again; any exception is caught, and answered by ROLLBACK and the
  failure message. \<open>importBody\<close> is the \<open>try\<close> block: it returns the database as the
  block left it (after a throw in the loop: with the changes of the rows before, and the
  transaction still open) and the count or the exception; \<open>handleImport\<close> adds the
  \<open>catch\<close> block. An exception of ROLLBACK itself leaves the handler (\<open>Inl\<close>). Saving
  to local storage and loading the list are taken to succeed. \<open>rnd\<close> is the sequence
  of draws of the random generator and \<open>k\<close> the number of draws made before the import.
\<close>

definition importBody :: "engine \<Rightarrow> (nat \<Rightarrow> 4 word) \<Rightarrow> nat \<Rightarrow> jsobj list \<Rightarrow> database
                          \<Rightarrow> database \<times> (jsError + nat)" where
  "importBody throws rnd k importedVisitors d =
     (case dbBegin d of
        Inl e \<Rightarrow> (d, Inl e)
      | Inr d1 \<Rightarrow>
          (case importLoop throws rnd importedVisitors (rows d1) k 0 of
             Inl (e, tbl) \<Rightarrow> (d1\<lparr>rows := tbl\<rparr>, Inl e)
           | Inr (tbl, k', importedCount) \<Rightarrow>
               (case dbCommit (d1\<lparr>rows := tbl\<rparr>) of
                  Inl e \<Rightarrow> (d1\<lparr>rows := tbl\<rparr>, Inl e)
                | Inr d2 \<Rightarrow> (d2, Inr importedCount))))"

definition handleImport :: "engine \<Rightarrow> (nat \<Rightarrow> 4 word) \<Rightarrow> nat \<Rightarrow> string \<Rightarrow> appState \<Rightarrow> jsError + appState" where
  "handleImport throws rnd k csvData s =
     (if csvData = [] then Inr s
      else (case importBody throws rnd k (parseCsv_script csvData) (db s) of
              (d, Inr importedCount) \<Rightarrow>
                Inr (s\<lparr>db := d, localStorage := Some (rows d), visitorsList := rows d,
                       messageBox := Some (Imported importedCount)\<rparr>)
            | (d, Inl e) \<Rightarrow>
                (case dbRollback d of
                   Inl e' \<Rightarrow> Inl e'
                 | Inr d' \<Rightarrow> Inr (s\<lparr>db := d', messageBox := Some ImportFailed\<rparr>))))"

subsection \<open>Search\<close>

text \<open>
  \<open>searchTerm.split(/\s+/).filter(term => term.length > 0)\<close>: the maximal runs of
  characters that are not white space.
\<close>

fun splitWords :: "string \<Rightarrow> string list \<Rightarrow> string \<Rightarrow> string list" where
  "splitWords cur acc [] = (if cur = [] then acc else acc @ [cur])"
| "splitWords cur acc (c # cs) =
     (if isSpace c then splitWords [] (if cur = [] then acc else acc @ [cur]) cs
      else splitWords (cur @ [c]) acc cs)"

definition nameIncludes :: "string option \<Rightarrow> string \<Rightarrow> bool" where
  "nameIncludes name t = (case name of None \<Rightarrow> False | Some n \<Rightarrow> n \<noteq> [] \<and> includes_str (toLowerCase n) t)"

definition matchesAll :: "string list \<Rightarrow> visitor \<Rightarrow> bool" where
  "matchesAll searchTerms v =
     list_all (\<lambda>t. nameIncludes (firstName v) t \<or> nameIncludes (lastName v) t) searchTerms"

text \<open>
  \<open>foundVisitors.find(v => `${v.firstName.toLowerCase()} ${v.lastName.toLowerCase()}` === searchTerm)\<close>:
  a name that is NULL has no \<open>toLowerCase\<close>, and the call throws.
\<close>

fun findExact :: "string \<Rightarrow> visitor list \<Rightarrow> jsError + visitor option" where
  "findExact searchTerm [] = Inr None"
| "findExact searchTerm (v # vs) =
     (case (firstName v, lastName v) of
        (Some f, Some l) \<Rightarrow>
          if toLowerCase f @ CHR '' '' # toLowerCase l = searchTerm then Inr (Some v)
          else findExact searchTerm vs
      | _ \<Rightarrow> Inl TypeError)"

datatype searchView = NothingShown | ProfileShown visitor | ResultsShown "visitor list"

definition handleSearch :: "string \<Rightarrow> appState \<Rightarrow> jsError + (searchView \<times> appState)" where
  "handleSearch input s =
     (let searchTerm = trim (toLowerCase input)
      in if searchTerm = [] then Inr (NothingShown, s\<lparr>selectedVisitorId := None\<rparr>)
         else let searchTerms = splitWords [] [] searchTerm;
                  foundVisitors = filter (matchesAll searchTerms) (visitorsList s)
              in (case findExact searchTerm foundVisitors of
                    Inl e \<Rightarrow> Inl e
                  | Inr (Some exactMatch) \<Rightarrow>
                      Inr (ProfileShown exactMatch, s\<lparr>selectedVisitorId := id' exactMatch\<rparr>)
                  | Inr None \<Rightarrow> Inr (ResultsShown foundVisitors, s)))"

section \<open>Example inputs\<close>

text \<open>The data line \<open>1,"x""y",2\<close> under a given header line.\<close>

definition quotedCsv :: "string \<Rightarrow> string" where
  "quotedCsv header = header @ [nl] @ ''1,'' @ [dq] @ ''x'' @ [dq, dq] @ ''y'' @ [dq] @ '',2''"

text \<open>A main process that has opened no file.\<close>

definition noFileState :: mainState where
  "noFileState = \<lparr>lastUsedFilePath = None, files = Map.empty, fsCalls = []\<rparr>"

text \<open>
  A store that holds one visitor, Jane Doe with the general notes \<open>VIP\<close>, and CSV
  texts with every column of the table. The draws of the random generator are
  0, 1, 2, ... (modulo 16).
\<close>

definition fullHeader :: string where
  "fullHeader = ''id,firstName,lastName,flatNumber,phoneNumber,dateOfBirth,scannedIdPicUrl,isBanned,notes,generalNotes''"

definition janeRow :: visitor where
  "janeRow = \<lparr>id' = Some ''v1'', firstName = Some ''Jane'', lastName = Some ''Doe'',
              flatNumber = Some ''4'', phoneNumber = Some ''555'', dateOfBirth = Some ''1990'',
              scannedIdPicUrl = Some ''jane.png'', isBanned = Some 0, notes' = Some [],
              generalNotes = Some ''VIP''\<rparr>"

definition janeApp :: appState where
  "janeApp = \<lparr>db = \<lparr>rows = [janeRow], txn = None\<rparr>, localStorage = Some [janeRow],
              visitorsList = [janeRow], selectedVisitorId = None, messageBox = None\<rparr>"

definition notesCsv :: string where
  "notesCsv = fullHeader @ [nl] @ ''v1,Jane,Doe,4,555,1990,jane.png,1,late,changed''
                         @ [nl] @ ''v2,Bob,Ray,7,556,1991,bob.png,0,,hello''"

definition draws :: "nat \<Rightarrow> 4 word" where
  "draws i = of_nat i"

definition emptyApp :: appState where
  "emptyApp = \<lparr>db = \<lparr>rows = [], txn = None\<rparr>, localStorage = None,
               visitorsList = [], selectedVisitorId = None, messageBox = None\<rparr>"

text \<open>Five rows; the third has three values only, so its other fields are undefined.\<close>

definition shortRowCsv :: string where
  "shortRowCsv = fullHeader @ [nl] @ ''v1,Jane,Doe,4,555,1990,jane.png,1,late,a''
                            @ [nl] @ ''v2,Bob,Ray,7,556,1991,bob.png,0,,b''
                            @ [nl] @ ''v3,Carl,Poe''
                            @ [nl] @ ''v4,Dan,Lee,1,557,1992,dan.png,0,,c''
                            @ [nl] @ ''v5,Eve,Fox,2,558,1993,eve.png,0,,d''"

text \<open>Three rows; the second has no last name.\<close>

definition namelessRowCsv :: string where
  "namelessRowCsv = fullHeader @ [nl] @ ''v1,Jane,Doe,4,555,1990,jane.png,1,late,a''
                               @ [nl] @ ''v2,Bob,,7,556,1991,bob.png,0,,b''
                               @ [nl] @ ''v3,Carl,Poe,9,559,1994,carl.png,0,,c''"

definition bobRow :: visitor where
  "bobRow = \<lparr>id' = Some ''v2'', firstName = Some ''Bob'', lastName = Some ''Ray'',
             flatNumber = Some ''7'', phoneNumber = Some ''556'', dateOfBirth = Some ''1991'',
             scannedIdPicUrl = Some ''bob.png'', isBanned = Some 0, notes' = Some [],
             generalNotes = Some []\<rparr>"

definition carlRow :: visitor where
  "carlRow = \<lparr>id' = Some ''v3'', firstName = Some ''Carl'', lastName = Some ''Poe'',
              flatNumber = Some ''9'', phoneNumber = Some ''559'', dateOfBirth = Some ''1994'',
              scannedIdPicUrl = Some ''carl.png'', isBanned = Some 0, notes' = Some [],
              generalNotes = Some []\<rparr>"

text \<open>A CSV text whose only row has every column but an empty id.\<close>

definition anonCsv :: string where
  "anonCsv = fullHeader @ [nl] @ '',Jane,Doe,4,555,1990,jane.png,0,,''"

definition anonRow :: "string \<Rightarrow> visitor" where
  "anonRow i = \<lparr>id' = Some i, firstName = Some ''Jane'', lastName = Some ''Doe'',
                flatNumber = Some ''4'', phoneNumber = Some ''555'', dateOfBirth = Some ''1990'',
                scannedIdPicUrl = Some ''jane.png'', isBanned = Some 0, notes' = Some [],
                generalNotes = Some []\<rparr>"

text \<open>The state after a committed import of \<open>n\<close> rows that left the table \<open>t\<close>.\<close>

definition imported :: "visitor list \<Rightarrow> nat \<Rightarrow> appState" where
  "imported t n = \<lparr>db = \<lparr>rows = t, txn = None\<rparr>, localStorage = Some t, visitorsList = t,
                    selectedVisitorId = None, messageBox = Some (Imported n)\<rparr>"

section \<open>Auxiliary definitions\<close>

text \<open>
  \<open>allIdsSupplied\<close>: every row that is not rejected has a truthy id. \<open>rowPass vs r\<close>
  is the row \<open>r\<close> after the UPDATE statements of the rows \<open>vs\<close>, in order.
\<close>

definition allIdsSupplied :: "jsobj list \<Rightarrow> bool" where
  "allIdsSupplied vs = list_all (\<lambda>v. rejected v \<or> truthy (getProp v ''id'')) vs"

fun rowPass :: "jsobj list \<Rightarrow> visitor \<Rightarrow> visitor" where
  "rowPass [] r = r"
| "rowPass (v # vs) r =
     (if rejected v then rowPass vs r
      else rowPass vs (updateRow (toText (getProp v ''id'')) v (bannedFlag v) r))"

definition trimmed :: "string \<Rightarrow> bool" where
  "trimmed s = (s = [] \<or> (\<not> isSpace (hd s) \<and> \<not> isSpace (last s)))"

section \<open>The parser of the main process, in parts\<close>

definition renameKey :: "string \<Rightarrow> string" where
  "renameKey header = (if header = ''visitorId'' then ''id'' else header)"

text \<open>The non-empty lines and the header keys of a CSV text, as \<open>parseCsv\<close> computes them.\<close>

definition csvLines :: "string \<Rightarrow> string list" where
  "csvLines csvText = filter (\<lambda>line. trim line \<noteq> []) (splitLines csvText)"

definition csvHeaders :: "string \<Rightarrow> string list" where
  "csvHeaders csvText = map trim (splitOn comma (hd (csvLines csvText)))"

definition strOf :: "jsval \<Rightarrow> string" where
  "strOf v = (case v of JStr s \<Rightarrow> s | _ \<Rightarrow> [])"


definition addKey :: "string \<Rightarrow> string list \<Rightarrow> string list" where
  "addKey k ks = (if k = ''__proto__'' \<or> k \<in> set ks then ks else ks @ [k])"

definition rowKeys :: "string list \<Rightarrow> string list \<Rightarrow> string list" where
  "rowKeys ks hs = foldl (\<lambda>ks h. addKey (renameKey h) ks) ks hs"

text \<open>A value a parsed row can hold: a trimmed string without a line feed.\<close>

definition parsedValue :: "jsval \<Rightarrow> bool" where
  "parsedValue y = (case y of JStr x \<Rightarrow> trimmed x \<and> nl \<notin> set x | _ \<Rightarrow> False)"


text \<open>The state of the main process after it has read the file at \<open>path\<close> and written \<open>content\<close> to it.\<close>

definition written :: "mainState \<Rightarrow> string \<Rightarrow> string \<Rightarrow> mainState" where
  "written s path content =
     s\<lparr>files := (files s)(path \<mapsto> content),
       fsCalls := fsCalls s @ [ReadFileSync path, WriteFileSync path content]\<rparr>"



text \<open>Three data lines; the second has an empty id.\<close>

definition gateCsv :: string where
  "gateCsv = ''id,name'' @ [nl] @ ''1,Ann'' @ [nl] @ '',Bob'' @ [nl] @ ''2,Cy''"

section \<open>Writing and reading back: auxiliary definitions\<close>

text \<open>
  A value survives the way back through the scanner when, if it is written in quotes
  (it holds a comma or a double quote), no backslash stands directly before a double
  quote in it and it does not end with a backslash.
\<close>

definition needsQuotes :: "string \<Rightarrow> bool" where
  "needsQuotes x = (comma \<in> set x \<or> dq \<in> set x)"

fun noBsQuote :: "string \<Rightarrow> bool" where
  "noBsQuote (a # b # cs) = (\<not> (a = bslash \<and> b = dq) \<and> noBsQuote (b # cs))"
| "noBsQuote cs = True"

definition bsSafe :: "string \<Rightarrow> bool" where
  "bsSafe x = (needsQuotes x \<longrightarrow> noBsQuote (x @ [dq]))"

text \<open>The text \<open>stringifyCsv\<close> writes for a string.\<close>

definition fmtS :: "string \<Rightarrow> string" where
  "fmtS x = (if needsQuotes x then dq # doubleDq x @ [dq] else x)"

text \<open>
  \<open>quoteSafe prev s\<close>: no double quote of \<open>s\<close> follows a backslash (\<open>prev\<close> is the
  character before \<open>s\<close>). On such a text the scanner is \<open>scanS\<close>, which toggles at every
  double quote.
\<close>

fun quoteSafe :: "char option \<Rightarrow> string \<Rightarrow> bool" where
  "quoteSafe prev [] = True"
| "quoteSafe prev (c # cs) = ((c = dq \<longrightarrow> prev \<noteq> Some bslash) \<and> quoteSafe (Some c) cs)"

fun scanS :: "bool \<Rightarrow> string \<Rightarrow> string list \<Rightarrow> string \<Rightarrow> string list" where
  "scanS inQuote cur vals [] = vals @ [unquote (trim cur)]"
| "scanS inQuote cur vals (c # cs) =
     (if c = dq then scanS (\<not> inQuote) (cur @ [c]) vals cs
      else if c = comma \<and> \<not> inQuote then scanS inQuote [] (vals @ [unquote (trim cur)]) cs
      else scanS inQuote (cur @ [c]) vals cs)"

text \<open>The line \<open>stringifyCsv\<close> writes for a record under the headers \<open>hs\<close>.\<close>

definition rowLine :: "string list \<Rightarrow> jsobj \<Rightarrow> string" where
  "rowLine hs visitor = joinWith comma (map (\<lambda>header. formatValue (getProp visitor header)) hs)"

text \<open>A text with a renamed id column, a quoted value, a row without id and a backslash.\<close>

definition rtCsv :: string where
  "rtCsv = ''visitorId,name,notes'' @ [cr, nl]
           @ ''v1, Ann ,'' @ [dq] @ ''likes '' @ [dq, dq] @ ''tea'' @ [dq, dq] @ '', no sugar'' @ [dq] @ [cr, nl]
           @ '',ghost,x'' @ [cr, nl]
           @ ''v2,Bob,C:'' @ [bslash] @ ''photos'' @ [bslash] @ ''bob.png'' @ [cr, nl]"

definition rtRows :: "jsobj list" where
  "rtRows = [[(''id'', JStr ''v1''), (''name'', JStr ''Ann''),
              (''notes'', JStr (''likes '' @ [dq] @ ''tea'' @ [dq] @ '', no sugar''))],
             [(''id'', JStr ''v2''), (''name'', JStr ''Bob''),
              (''notes'', JStr (''C:'' @ [bslash] @ ''photos'' @ [bslash] @ ''bob.png''))]]"

text \<open>The data line \<open>1,\",b\<close>: a backslash before a double quote.\<close>

definition bsCsv :: string where
  "bsCsv = ''id,x,y'' @ [nl] @ ''1,'' @ [bslash, dq] @ '',b''"

section \<open>The file after an export: auxiliary definitions\<close>







section \<open>The batch import: lemmas\<close>

lemma importLoop_append:
  "importLoop throws rnd (pre @ post) tbl k n =
     (case importLoop throws rnd pre tbl k n of
        Inl e \<Rightarrow> Inl e
      | Inr (tbl', k', n') \<Rightarrow> importLoop throws rnd post tbl' k' n')"
  by (induction pre arbitrary: tbl k n) (auto simp: Let_def)

lemma importLoop_skips_rejected:
  "importLoop throws rnd (filter (\<lambda>v. \<not> rejected v) vs) tbl k n = importLoop throws rnd vs tbl k n"
  by (induction vs arbitrary: tbl k n) (auto simp: Let_def)

lemma generalNotes_updateRow: "generalNotes (updateRow visitorId v b r) = generalNotes r"
  by (simp add: updateRow_def)

lemma id_updateRow: "id' (updateRow visitorId v b r) = id' r"
  by (simp add: updateRow_def)

lemma generalNotes_upsertRow:
  "map generalNotes (upsertRow visitorId v tbl)
     = map generalNotes tbl @ (if selectById visitorId tbl \<noteq> [] then [] else [Some []])"
  by (simp add: upsertRow_def generalNotes_updateRow insertRow_def)

lemma ids_upsertRow:
  "map id' (upsertRow visitorId v tbl)
     = map id' tbl @ (if selectById visitorId tbl \<noteq> [] then [] else [visitorId])"
  by (simp add: upsertRow_def id_updateRow insertRow_def)

lemma importLoop_generalNotes:
  "importLoop throws rnd vs tbl k n = Inr (tbl', k', n') \<Longrightarrow>
     \<exists>m. map generalNotes tbl' = map generalNotes tbl @ replicate m (Some [])"
proof (induction vs arbitrary: tbl k n)
  case Nil
  then show ?case by auto
next
  case (Cons v vs)
  show ?case
  proof (cases "rejected v")
    case True
    with Cons show ?thesis by simp
  next
    case False
    let ?vid = "toText (fst (resolveId rnd k v))"
    from Cons.prems False have nt: "\<not> throws tbl ?vid v"
      by (auto simp: Let_def split: if_splits)
    with Cons.prems False
    have "importLoop throws rnd vs (upsertRow ?vid v tbl) (snd (resolveId rnd k v)) (Suc n) = Inr (tbl', k', n')"
      by (simp add: Let_def)
    from Cons.IH [OF this] obtain m where
      m: "map generalNotes tbl' = map generalNotes (upsertRow ?vid v tbl) @ replicate m (Some [])" ..
    show ?thesis
    proof (cases "selectById ?vid tbl \<noteq> []")
      case True
      with m show ?thesis by (auto simp: generalNotes_upsertRow)
    next
      case False
      with m have "map generalNotes tbl' = map generalNotes tbl @ replicate (Suc m) (Some [])"
        by (simp add: generalNotes_upsertRow)
      then show ?thesis by blast
    qed
  qed
qed

lemma importLoop_ids:
  "importLoop throws rnd vs tbl k n = Inr (tbl', k', n') \<Longrightarrow>
     \<exists>new. map id' tbl' = map id' tbl @ new"
proof (induction vs arbitrary: tbl k n)
  case Nil
  then show ?case by auto
next
  case (Cons v vs)
  show ?case
  proof (cases "rejected v")
    case True
    with Cons show ?thesis by simp
  next
    case False
    let ?vid = "toText (fst (resolveId rnd k v))"
    from Cons.prems False have nt: "\<not> throws tbl ?vid v"
      by (auto simp: Let_def split: if_splits)
    with Cons.prems False
    have "importLoop throws rnd vs (upsertRow ?vid v tbl) (snd (resolveId rnd k v)) (Suc n) = Inr (tbl', k', n')"
      by (simp add: Let_def)
    from Cons.IH [OF this] obtain new where
      "map id' tbl' = map id' (upsertRow ?vid v tbl) @ new" ..
    then show ?thesis by (auto simp: ids_upsertRow)
  qed
qed

lemma importBody_loop:
  assumes "txn d = None"
  shows "importBody throws rnd k vs d =
           (case importLoop throws rnd vs (rows d) k 0 of
              Inl (e, tbl) \<Rightarrow> (\<lparr>rows = tbl, txn = Some (rows d)\<rparr>, Inl e)
            | Inr (tbl, k', n) \<Rightarrow> (\<lparr>rows = tbl, txn = None\<rparr>, Inr n))"
  using assms
  by (auto simp: importBody_def dbBegin_def dbCommit_def split: sum.splits prod.splits)

lemma handleImport_failed:
  assumes "txn (db s) = None" "csvData \<noteq> []"
    and "importLoop throws rnd (parseCsv_script csvData) (rows (db s)) k 0 = Inl e"
  shows "handleImport throws rnd k csvData s = Inr (s\<lparr>messageBox := Some ImportFailed\<rparr>)"
proof -
  obtain x tbl where e: "e = (x, tbl)" by (cases e)
  have "\<lparr>rows = rows (db s), txn = None\<rparr> = db s" using assms(1) by simp
  then show ?thesis
    using assms by (simp add: handleImport_def importBody_loop dbRollback_def e)
qed

lemma handleImport_committed:
  assumes "txn (db s) = None" "csvData \<noteq> []"
    and "importLoop throws rnd (parseCsv_script csvData) (rows (db s)) k 0 = Inr (tbl, k', n)"
  shows "handleImport throws rnd k csvData s
           = Inr (s\<lparr>db := \<lparr>rows = tbl, txn = None\<rparr>, localStorage := Some tbl,
                    visitorsList := tbl, messageBox := Some (Imported n)\<rparr>)"
  using assms by (simp add: handleImport_def importBody_loop)

lemma nibble_cases:
  fixes w :: "4 word"
  shows "w \<in> set (map of_nat [0..<16])"
proof -
  have "unat w < 16" using unsigned_less [of w] by simp
  then have "unat w \<in> set [0..<16]" by simp
  then have "(of_nat (unat w) :: 4 word) \<in> of_nat ` set [0..<16]" by (rule imageI)
  then show ?thesis by simp
qed

lemma isHexChar_hexDigit: "isHexChar (hexDigit w)"
proof -
  have "list_all (\<lambda>w. isHexChar (hexDigit w)) (map of_nat [0..<16] :: 4 word list)"
    by code_simp
  then show ?thesis using nibble_cases [of w] by (simp only: list_all_iff)
qed

lemma variant_hexDigit: "hexDigit (w AND 3 OR 8) \<in> set ''89ab''"
proof -
  have "list_all (\<lambda>w. hexDigit (w AND 3 OR 8) \<in> set ''89ab'') (map of_nat [0..<16] :: 4 word list)"
    by code_simp
  then show ?thesis using nibble_cases [of w] by (simp only: list_all_iff)
qed

lemma uuidReplace_acc:
  "uuidReplace rnd k acc t = (acc @ fst (uuidReplace rnd k [] t), snd (uuidReplace rnd k [] t))"
proof (induction t arbitrary: k acc)
  case Nil
  then show ?case by simp
next
  case (Cons c cs)
  show ?case
    by (simp add: Cons.IH [of _ "acc @ _"] Cons.IH [of _ "[_]"])
qed

lemma uuidReplace_matches: "matchesTemplate t (fst (uuidReplace rnd k [] t))"
proof (induction t arbitrary: k)
  case Nil
  then show ?case by simp
next
  case (Cons c cs)
  show ?case
    using Cons.IH
    by (simp add: uuidReplace_acc [of _ _ "[_]"] isHexChar_hexDigit variant_hexDigit del: set_simps)
qed

lemma matchesTemplate_length: "matchesTemplate t u \<Longrightarrow> length u = length t"
  by (induction t u rule: matchesTemplate.induct) auto

lemma uuidv4_format: "isUuidV4 (fst (uuidv4 rnd k))"
  unfolding isUuidV4_def uuidv4_def by (rule uuidReplace_matches)

lemma uuidv4_length: "length (fst (uuidv4 rnd k)) = 36"
  using matchesTemplate_length [OF uuidv4_format [unfolded isUuidV4_def]] by simp

lemma natToString_not_Nil: "natToString n \<noteq> []"
  by (subst natToString.simps) simp

lemma resolveId_nonempty: "\<exists>i. toText (fst (resolveId rnd k v)) = Some i \<and> i \<noteq> []"
proof (cases "truthy (getProp v ''id'')")
  case True
  then show ?thesis
    by (cases "getProp v ''id''")
       (auto simp: resolveId_def toText_def intToString_def natToString_not_Nil)
next
  case False
  then show ?thesis
    using uuidv4_length [of rnd k] by (auto simp: resolveId_def toText_def)
qed

lemma upsertRow_rows:
  "r \<in> set (upsertRow visitorId v tbl) \<Longrightarrow> r \<in> set tbl \<or> id' r = visitorId"
  by (auto simp: upsertRow_def updateRow_def insertRow_def split: if_splits)

lemma importLoop_new_rows:
  "importLoop throws rnd vs tbl k n = Inr (tbl', k', n') \<Longrightarrow> r \<in> set tbl' \<Longrightarrow>
     r \<in> set tbl \<or> (\<exists>i. id' r = Some i \<and> i \<noteq> [])"
proof (induction vs arbitrary: tbl k n)
  case Nil
  then show ?case by simp
next
  case (Cons v vs)
  show ?case
  proof (cases "rejected v")
    case True
    with Cons show ?thesis by simp
  next
    case False
    let ?vid = "toText (fst (resolveId rnd k v))"
    from Cons.prems False have nt: "\<not> throws tbl ?vid v"
      by (auto simp: Let_def split: if_splits)
    with Cons.prems False
    have "importLoop throws rnd vs (upsertRow ?vid v tbl) (snd (resolveId rnd k v)) (Suc n) = Inr (tbl', k', n')"
      by (simp add: Let_def)
    from Cons.IH [OF this Cons.prems(2)]
    have "r \<in> set (upsertRow ?vid v tbl) \<or> (\<exists>i. id' r = Some i \<and> i \<noteq> [])" .
    then show ?thesis
      using upsertRow_rows [of r ?vid v tbl] resolveId_nonempty [of rnd k v] by auto
  qed
qed


section \<open>Importing twice: lemmas\<close>

lemma rowPass_append: "rowPass (vs @ ws) r = rowPass ws (rowPass vs r)"
  by (induction vs arbitrary: r) auto

lemma rowPass_id: "id' (rowPass vs r) = id' r"
  by (induction vs arbitrary: r) (auto simp: id_updateRow)

lemma rowPass_generalNotes: "generalNotes (rowPass vs r) = generalNotes r"
  by (induction vs arbitrary: r) (auto simp: generalNotes_updateRow)

lemma truthy_toText: "truthy x \<Longrightarrow> toText x \<noteq> None"
  by (cases x) (auto simp: toText_def)

lemma resolveId_supplied: "truthy (getProp v ''id'') \<Longrightarrow> resolveId rnd k v = (getProp v ''id'', k)"
  by (simp add: resolveId_def)

lemma selectById_nonempty:
  "visitorId \<noteq> None \<Longrightarrow> (selectById visitorId tbl \<noteq> []) = (visitorId \<in> set (map id' tbl))"
  by (force simp: selectById_def filter_empty_conv)

lemma updateRow_same_key:
  assumes "id' y = id' r" "generalNotes y = generalNotes r" "id' r \<noteq> None"
  shows "updateRow (id' r) v b y = updateRow (id' r) v b (r :: visitor)"
  using assms by (cases y; cases r) (auto simp: updateRow_def)

lemma updateRow_other: "id' r \<noteq> visitorId \<Longrightarrow> updateRow visitorId v b r = r"
  by (simp add: updateRow_def)

lemma updateRow_insertRow: "updateRow visitorId v b (insertRow visitorId v b) = insertRow visitorId v b"
  by (auto simp: updateRow_def insertRow_def)

lemma updateRow_idem: "updateRow visitorId v b (updateRow visitorId v b r) = updateRow visitorId v b r"
  by (cases r) (auto simp: updateRow_def)

text \<open>A row that carries the fields of \<open>v\<close> is restored by the update of \<open>v\<close> after any pass.\<close>

lemma updateRow_after_pass:
  assumes "updateRow visitorId v b r = r" "id' r = visitorId" "visitorId \<noteq> None"
  shows "updateRow visitorId v b (rowPass vs r) = r"
proof -
  have "updateRow (id' r) v b (rowPass vs r) = updateRow (id' r) v b r"
    using assms by (intro updateRow_same_key) (simp_all add: rowPass_id rowPass_generalNotes)
  with assms show ?thesis by simp
qed

text \<open>With every id supplied, the loop draws no random number.\<close>

lemma importLoop_supplied:
  assumes "allIdsSupplied vs"
  shows "importLoop throws rnd vs tbl k n =
           (case importLoop throws rnd' vs tbl k' n of
              Inl e \<Rightarrow> Inl e | Inr (t, k2, m) \<Rightarrow> Inr (t, k, m))"
  using assms
proof (induction vs arbitrary: tbl n)
  case Nil
  then show ?case by simp
next
  case (Cons v vs)
  then have s: "allIdsSupplied vs" and hd: "rejected v \<or> truthy (getProp v ''id'')"
    by (simp_all add: allIdsSupplied_def)
  show ?case
  proof (cases "rejected v")
    case True
    with Cons.IH [OF s] show ?thesis by simp
  next
    case False
    with hd have t: "truthy (getProp v ''id'')" by simp
    show ?thesis
      using False Cons.IH [OF s] by (simp add: resolveId_supplied [OF t] Let_def)
  qed
qed

text \<open>The second pass: when every id is in the table, each row is updated only.\<close>

lemma importLoop_updates_only:
  assumes "allIdsSupplied vs"
    and "\<forall>v \<in> set vs. \<not> rejected v \<longrightarrow> toText (getProp v ''id'') \<in> set (map id' tbl)"
    and "importLoop throws rnd vs tbl k n = Inr (t, k', n')"
  shows "t = map (rowPass vs) tbl"
  using assms
proof (induction vs arbitrary: tbl n)
  case Nil
  then show ?case by simp
next
  case (Cons v vs)
  then have s: "allIdsSupplied vs" and hd: "rejected v \<or> truthy (getProp v ''id'')"
    by (simp_all add: allIdsSupplied_def)
  show ?case
  proof (cases "rejected v")
    case True
    with Cons.prems Cons.IH [OF s, of tbl n] show ?thesis by simp
  next
    case False
    with hd have tr: "truthy (getProp v ''id'')" by simp
    let ?vid = "toText (getProp v ''id'')"
    let ?tbl = "map (updateRow ?vid v (bannedFlag v)) tbl"
    have sel: "selectById ?vid tbl \<noteq> []"
      using Cons.prems(2) False truthy_toText [OF tr] by (simp add: selectById_nonempty)
    then have up: "upsertRow ?vid v tbl = ?tbl" by (simp add: upsertRow_def)
    from Cons.prems(3) False
    have loop: "importLoop throws rnd vs ?tbl k (Suc n) = Inr (t, k', n')"
      by (simp add: resolveId_supplied [OF tr] Let_def up split: if_splits)
    have ids: "map id' ?tbl = map id' tbl" by (simp add: id_updateRow)
    have "\<forall>w \<in> set vs. \<not> rejected w \<longrightarrow> toText (getProp w ''id'') \<in> set (map id' ?tbl)"
      using Cons.prems(2) unfolding ids by simp
    from Cons.IH [OF s this loop] show ?thesis using False by simp
  qed
qed

text \<open>The first pass leaves every row as a further pass would make it, and every id in the table.\<close>

lemma importLoop_settled:
  assumes "allIdsSupplied vs" and "importLoop throws rnd vs tbl k n = Inr (t, k', n')"
  shows "(\<forall>r \<in> set t. rowPass vs r = r)
         \<and> (\<forall>v \<in> set vs. \<not> rejected v \<longrightarrow> toText (getProp v ''id'') \<in> set (map id' t))"
  using assms
proof (induction vs arbitrary: t k' n' rule: rev_induct)
  case Nil
  then show ?case by simp
next
  case (snoc v vs)
  then have s: "allIdsSupplied vs" and hd: "rejected v \<or> truthy (getProp v ''id'')"
    by (simp_all add: allIdsSupplied_def)
  from snoc.prems(2) obtain t0 k0 n0 where
    first: "importLoop throws rnd vs tbl k n = Inr (t0, k0, n0)"
    and last: "importLoop throws rnd [v] t0 k0 n0 = Inr (t, k', n')"
    by (auto simp: importLoop_append split: sum.splits)
  note IH = snoc.IH [OF s first]
  show ?case
  proof (cases "rejected v")
    case True
    with last have "t = t0" by simp
    with IH True show ?thesis by (simp add: rowPass_append)
  next
    case False
    with hd have tr: "truthy (getProp v ''id'')" by simp
    let ?vid = "toText (getProp v ''id'')"
    let ?b = "bannedFlag v"
    have vid: "?vid \<noteq> None" by (rule truthy_toText [OF tr])
    from last False have t: "t = upsertRow ?vid v t0"
      by (simp add: resolveId_supplied [OF tr] Let_def split: if_splits)
    have pass: "rowPass (vs @ [v]) r = updateRow ?vid v ?b (rowPass vs r)" for r
      using False by (simp add: rowPass_append)
    have ids: "set (map id' t0) \<subseteq> set (map id' t)" unfolding t by (simp add: ids_upsertRow)
    have here: "?vid \<in> set (map id' t)"
    proof (cases "selectById ?vid t0 \<noteq> []")
      case True
      then show ?thesis using vid ids by (auto simp: selectById_nonempty)
    next
      case False
      then show ?thesis unfolding t by (simp add: ids_upsertRow)
    qed
    have rows: "rowPass (vs @ [v]) r = r" if r: "r \<in> set t" for r
    proof -
      consider (upd) r0 where "r0 \<in> set t0" "r = updateRow ?vid v ?b r0" "id' r0 = ?vid"
        | (old) "r \<in> set t0" "id' r \<noteq> ?vid"
        | (ins) "r = insertRow ?vid v ?b"
      proof (cases "selectById ?vid t0 \<noteq> []")
        case True
        with r t obtain r0 where r0: "r0 \<in> set t0" "r = updateRow ?vid v ?b r0"
          by (auto simp: upsertRow_def)
        show ?thesis
        proof (cases "id' r0 = ?vid")
          case True
          with r0 upd show ?thesis by blast
        next
          case False
          with r0 have "r = r0" by (simp add: updateRow_other)
          with r0(1) False have "r \<in> set t0" "id' r \<noteq> ?vid" by simp_all
          then show ?thesis by (rule old)
        qed
      next
        case False
        with r t have "r \<in> set t0 \<or> r = insertRow ?vid v ?b" by (auto simp: upsertRow_def)
        moreover have "id' x \<noteq> ?vid" if "x \<in> set t0" for x
          using False that vid by (auto simp: selectById_def filter_empty_conv)
        ultimately show ?thesis using old ins by blast
      qed
      then show ?thesis
      proof cases
        case upd
        have "updateRow ?vid v ?b r = r" unfolding upd(2) by (rule updateRow_idem)
        moreover have "id' r = ?vid" unfolding upd(2) using upd(3) by (simp add: id_updateRow)
        ultimately show ?thesis using vid unfolding pass by (rule updateRow_after_pass)
      next
        case old
        with IH have "rowPass vs r = r" by blast
        with old show ?thesis unfolding pass by (simp add: updateRow_other)
      next
        case ins
        have "updateRow ?vid v ?b r = r" unfolding ins by (rule updateRow_insertRow)
        moreover have "id' r = ?vid" unfolding ins by (simp add: insertRow_def)
        ultimately show ?thesis using vid unfolding pass by (rule updateRow_after_pass)
      qed
    qed
    have "\<forall>w \<in> set (vs @ [v]). \<not> rejected w \<longrightarrow> toText (getProp w ''id'') \<in> set (map id' t)"
      using IH ids here by auto
    with rows show ?thesis by blast
  qed
qed

lemma importLoop_idempotent:
  assumes "allIdsSupplied vs" and "importLoop throws rnd vs tbl k n = Inr (t, k', n')"
    and "importLoop throws rnd' vs t j m = Inr (t2, j', m')"
  shows "t2 = t"
proof -
  note st = importLoop_settled [OF assms(1,2)]
  from importLoop_updates_only [OF assms(1) st [THEN conjunct2] assms(3)]
  have "t2 = map (rowPass vs) t" .
  also have "\<dots> = t" using st [THEN conjunct1] by (simp add: map_idI)
  finally show ?thesis .
qed

section \<open>Strings: lemmas\<close>

lemma set_trim: "set (trim s) \<subseteq> set s"
proof -
  have "set (trim s) = set (dropWhile isSpace (rev (dropWhile isSpace s)))" by (simp add: trim_def)
  also have "\<dots> \<subseteq> set (rev (dropWhile isSpace s))" by (rule set_dropWhileD [THEN subsetI])
  also have "\<dots> \<subseteq> set s" using set_dropWhileD [of _ isSpace s] by auto
  finally show ?thesis .
qed

lemma trimmed_trim: "trimmed (trim s)"
proof (cases "dropWhile isSpace s = []")
  case True
  have "trim s = []" unfolding trim_def True by simp
  then show ?thesis by (simp add: trimmed_def)
next
  case False
  let ?d = "dropWhile isSpace s"
  let ?e = "dropWhile isSpace (rev ?d)"
  have hd_d: "\<not> isSpace (hd ?d)" using False by (rule hd_dropWhile)
  have "hd ?d \<in> set (rev ?d)" using False by simp
  with hd_d have e_ne: "?e \<noteq> []" by (auto simp: dropWhile_eq_Nil_conv)
  then have hd_e: "\<not> isSpace (hd ?e)" by (rule hd_dropWhile)
  have "rev ?d = takeWhile isSpace (rev ?d) @ ?e" by simp
  then have "last (rev ?d) = last ?e" using e_ne by (metis last_appendR)
  then have last_e: "last ?e = hd ?d" using False by (simp add: last_rev)
  have t: "trim s = rev ?e" by (simp add: trim_def)
  have "hd (trim s) = last ?e" unfolding t using e_ne by (simp add: hd_rev)
  moreover have "last (trim s) = hd ?e" unfolding t using e_ne by (simp add: last_rev)
  ultimately show ?thesis using hd_d hd_e last_e by (simp add: trimmed_def)
qed

lemma trim_trimmed: "trimmed s \<Longrightarrow> trim s = s"
proof (cases "s = []")
  case True
  then show ?thesis by (simp add: trim_def)
next
  case False
  assume "trimmed s"
  with False have h: "\<not> isSpace (hd s)" and l: "\<not> isSpace (last s)" by (simp_all add: trimmed_def)
  from h False have d: "dropWhile isSpace s = s" by (cases s) auto
  from l False have "\<not> isSpace (hd (rev s))" by (simp add: hd_rev)
  with False have "dropWhile isSpace (rev s) = rev s" by (cases "rev s") auto
  with d show ?thesis by (simp add: trim_def)
qed



lemma trim_nonblank: "c \<in> set s \<Longrightarrow> \<not> isSpace c \<Longrightarrow> trim s \<noteq> []"
proof -
  assume c: "c \<in> set s" "\<not> isSpace c"
  then have d: "dropWhile isSpace s \<noteq> []" by (auto simp: dropWhile_eq_Nil_conv)
  then have "\<not> isSpace (hd (dropWhile isSpace s))" by (rule hd_dropWhile)
  moreover have "hd (dropWhile isSpace s) \<in> set (rev (dropWhile isSpace s))" using d by simp
  ultimately have "dropWhile isSpace (rev (dropWhile isSpace s)) \<noteq> []"
    by (auto simp: dropWhile_eq_Nil_conv)
  then show ?thesis by (simp add: trim_def)
qed

subsection \<open>split and join\<close>

lemma splitAcc_no_sep:
  "sep \<notin> set s \<Longrightarrow> splitAcc sep cur acc s = acc @ [cur @ s]"
  by (induction s arbitrary: cur) auto

lemma splitAcc_sep:
  "sep \<notin> set s \<Longrightarrow> splitAcc sep cur acc (s @ sep # rest) = splitAcc sep [] (acc @ [cur @ s]) rest"
  by (induction s arbitrary: cur) auto

lemma splitAcc_join:
  assumes "\<forall>x \<in> set (x0 # xs). sep \<notin> set x"
  shows "splitAcc sep [] acc (joinWith sep (x0 # xs)) = acc @ x0 # xs"
  using assms
proof (induction xs arbitrary: x0 acc)
  case Nil
  then show ?case by (simp add: splitAcc_no_sep)
next
  case (Cons y ys)
  then have "splitAcc sep [] acc (joinWith sep (x0 # y # ys))
               = splitAcc sep [] (acc @ [x0]) (joinWith sep (y # ys))"
    using splitAcc_sep [of sep x0 "[]" acc "joinWith sep (y # ys)"] by simp
  also have "\<dots> = (acc @ [x0]) @ y # ys" using Cons.prems by (intro Cons.IH) simp
  finally show ?case by simp
qed

lemma splitOn_join:
  assumes "xs \<noteq> []" "\<forall>x \<in> set xs. sep \<notin> set x"
  shows "splitOn sep (joinWith sep xs) = xs"
proof -
  from assms(1) obtain x0 ys where "xs = x0 # ys" by (cases xs) auto
  with assms(2) show ?thesis using splitAcc_join [of x0 ys sep "[]"] by (simp add: splitOn_def)
qed

lemma splitAcc_pieces:
  "p \<in> set (splitAcc sep cur acc s) \<Longrightarrow>
     p \<in> set acc \<or> (sep \<notin> set p - set cur \<and> set p \<subseteq> set cur \<union> set s)"
proof (induction s arbitrary: cur acc)
  case Nil
  then show ?case by auto
next
  case (Cons c cs)
  show ?case
  proof (cases "c = sep")
    case True
    with Cons.prems have "p \<in> set (splitAcc sep [] (acc @ [cur]) cs)" by simp
    from Cons.IH [OF this] show ?thesis by auto
  next
    case False
    with Cons.prems have "p \<in> set (splitAcc sep (cur @ [c]) acc cs)" by simp
    from Cons.IH [OF this] False show ?thesis by auto
  qed
qed

lemma splitOn_pieces: "p \<in> set (splitOn sep s) \<Longrightarrow> sep \<notin> set p \<and> set p \<subseteq> set s"
  using splitAcc_pieces [of p sep "[]" "[]" s] by (auto simp: splitOn_def)

lemma splitAcc_not_Nil: "splitAcc sep cur acc s \<noteq> []"
  by (induction s arbitrary: cur acc) auto

lemma splitOn_not_Nil: "splitOn sep s \<noteq> []"
  by (simp add: splitOn_def splitAcc_not_Nil)

lemma stripCr_subset: "set (stripCr s) \<subseteq> set s"
  by (auto simp: stripCr_def dest: in_set_butlastD)

lemma splitLines_pieces: "p \<in> set (splitLines s) \<Longrightarrow> nl \<notin> set p \<and> set p \<subseteq> set s"
proof -
  assume "p \<in> set (splitLines s)"
  then obtain q where q: "q \<in> set (splitOn nl s)" and p: "p = stripCr q \<or> p = q"
    using last_in_set [OF splitOn_not_Nil [of nl s]]
    by (auto simp: splitLines_def Let_def dest: in_set_butlastD)
  from splitOn_pieces [OF q] p stripCr_subset [of q] show ?thesis by auto
qed

lemma stripCr_id: "s = [] \<or> last s \<noteq> cr \<Longrightarrow> stripCr s = s"
  by (auto simp: stripCr_def)

lemma splitLines_join:
  assumes "ls \<noteq> []" "\<forall>l \<in> set ls. nl \<notin> set l \<and> (l = [] \<or> last l \<noteq> cr)"
  shows "splitLines (joinWith nl ls) = ls"
proof -
  have sp: "splitOn nl (joinWith nl ls) = ls" using assms by (intro splitOn_join) auto
  have "map stripCr (butlast ls) = butlast ls"
    using assms(2) by (intro map_idI stripCr_id) (auto dest: in_set_butlastD)
  then show ?thesis using assms(1) by (simp add: splitLines_def sp)
qed

section \<open>The rows of the parser: lemmas\<close>

lemma parseCsv_unfold:
  "parseCsv csvText =
     (if csvLines csvText = [] then []
      else map fst (filter snd (map (parseRow (csvHeaders csvText)) (tl (csvLines csvText)))))"
  by (simp add: parseCsv_def csvLines_def csvHeaders_def Let_def)

lemma getProp_setProp_same: "k \<noteq> ''__proto__'' \<Longrightarrow> getProp (setProp k v obj) k = v"
  by (simp add: getProp_def setProp_def update_conv')

lemma getProp_setProp_other: "k \<noteq> k' \<Longrightarrow> getProp (setProp k v obj) k' = getProp obj k'"
  by (simp add: getProp_def setProp_def update_conv')

lemma id_not_proto: "''id'' \<noteq> ''__proto__''"
  by simp

text \<open>Without a column that resolves to \<open>id\<close>, the flag and the id are left alone.\<close>

lemma forEachHeader_no_id:
  "''id'' \<notin> set (map renameKey hs) \<Longrightarrow>
     snd (forEachHeader vals hs i row b) = b
     \<and> getProp (fst (forEachHeader vals hs i row b)) ''id'' = getProp row ''id''"
proof (induction hs arbitrary: i row b)
  case Nil
  then show ?case by simp
next
  case (Cons h hs)
  then have k: "renameKey h \<noteq> ''id''" and rest: "''id'' \<notin> set (map renameKey hs)" by auto
  from k have k': "(if h = ''visitorId'' then ''id'' else h) \<noteq> ''id''" by (simp add: renameKey_def)
  show ?case
    using Cons.IH [OF rest] k'
    by (simp add: Let_def getProp_setProp_other del: truthy.simps)
qed

text \<open>With at most one such column, the flag says whether the resolved id is non-empty.\<close>

lemma forEachHeader_one_id:
  "length (filter (\<lambda>k. k = ''id'') (map renameKey hs)) \<le> 1 \<Longrightarrow>
     snd (forEachHeader vals hs i row False)
       = (''id'' \<in> set (map renameKey hs) \<and> truthy (getProp (fst (forEachHeader vals hs i row False)) ''id''))"
proof (induction hs arbitrary: i row)
  case Nil
  then show ?case by simp
next
  case (Cons h hs)
  show ?case
  proof (cases "renameKey h = ''id''")
    case True
    with Cons.prems have rest: "''id'' \<notin> set (map renameKey hs)"
      by (auto simp: filter_empty_conv)
    from True have k: "(if h = ''visitorId'' then ''id'' else h) = ''id''" by (simp add: renameKey_def)
    show ?thesis
      using forEachHeader_no_id [OF rest] True k
      by (simp add: Let_def getProp_setProp_same del: truthy.simps)
  next
    case False
    with Cons.prems have rest: "length (filter (\<lambda>k. k = ''id'') (map renameKey hs)) \<le> 1" by simp
    from False have k: "(if h = ''visitorId'' then ''id'' else h) \<noteq> ''id''" by (simp add: renameKey_def)
    show ?thesis
      using Cons.IH [OF rest] False k by (simp add: Let_def)
  qed
qed


lemma keys_setProp: "map fst (setProp k v row) = addKey k (map fst row)"
  by (simp add: setProp_def addKey_def update_keys)

lemma set_setProp: "set (setProp k v row) \<subseteq> insert (k, v) (set row)"
proof -
  have "set (AList.update k v row) \<subseteq> insert (k, v) (set row)"
    by (induction row) auto
  then show ?thesis by (auto simp: setProp_def)
qed

lemma keys_forEachHeader:
  "map fst (fst (forEachHeader vals hs i row b)) = rowKeys (map fst row) hs"
proof (induction hs arbitrary: i row b)
  case Nil
  then show ?case by (simp add: rowKeys_def)
next
  case (Cons h hs)
  show ?case
    using Cons.IH by (simp add: Let_def keys_setProp rowKeys_def renameKey_def del: truthy.simps)
qed

lemma distinct_addKey: "distinct ks \<Longrightarrow> distinct (addKey k ks)"
  by (simp add: addKey_def)

lemma distinct_rowKeys: "distinct ks \<Longrightarrow> distinct (rowKeys ks hs)"
  unfolding rowKeys_def by (induction hs arbitrary: ks) (simp_all add: distinct_addKey)

lemma set_addKey: "set (addKey k ks) \<subseteq> insert k (set ks) \<and> set ks \<subseteq> set (addKey k ks)
                   \<and> (''__proto__'' \<notin> set ks \<longrightarrow> ''__proto__'' \<notin> set (addKey k ks))"
  by (auto simp: addKey_def)

lemma set_rowKeys:
  "set (rowKeys ks hs) \<subseteq> set ks \<union> renameKey ` set hs \<and> set ks \<subseteq> set (rowKeys ks hs)
   \<and> (''__proto__'' \<notin> set ks \<longrightarrow> ''__proto__'' \<notin> set (rowKeys ks hs))"
  unfolding rowKeys_def
proof (induction hs arbitrary: ks)
  case Nil
  then show ?case by simp
next
  case (Cons h hs)
  show ?case using Cons.IH [of "addKey (renameKey h) ks"] set_addKey [of "renameKey h" ks]
    by auto
qed

lemma id_in_rowKeys: "''id'' \<in> renameKey ` set hs \<Longrightarrow> ''id'' \<in> set (rowKeys ks hs)"
  unfolding rowKeys_def
proof (induction hs arbitrary: ks)
  case Nil
  then show ?case by simp
next
  case (Cons h hs)
  show ?case
  proof (cases "renameKey h = ''id''")
    case True
    then have "''id'' \<in> set (addKey (renameKey h) ks)" by (simp add: addKey_def)
    then show ?thesis using set_rowKeys [of "addKey (renameKey h) ks" hs]
      by (auto simp: rowKeys_def)
  next
    case False
    with Cons.prems have "''id'' \<in> renameKey ` set hs" by auto
    from Cons.IH [OF this] show ?thesis by simp
  qed
qed

lemma values_forEachHeader:
  assumes "\<forall>y \<in> snd ` set row. parsedValue y" "\<forall>x \<in> set vals. nl \<notin> set x"
  shows "\<forall>y \<in> snd ` set (fst (forEachHeader vals hs i row b)). parsedValue y"
  using assms(1)
proof (induction hs arbitrary: i row b)
  case Nil
  then show ?case by simp
next
  case (Cons h hs)
  let ?v = "if i < length vals \<and> vals ! i \<noteq> [] then trim (vals ! i) else []"
  have "parsedValue (JStr ?v)"
    using assms(2) set_trim [of "vals ! i"] trimmed_trim [of "vals ! i"]
    by (auto simp: parsedValue_def trimmed_def)
  then have "\<forall>y \<in> snd ` set (setProp (if h = ''visitorId'' then ''id'' else h) (JStr ?v) row). parsedValue y"
    using Cons.prems set_setProp [of "if h = ''visitorId'' then ''id'' else h" "JStr ?v" row]
    by fastforce
  from Cons.IH [OF this] show ?case by (simp add: Let_def del: truthy.simps)
qed

subsection \<open>The values of a line\<close>

lemma set_replaceDq: "set (replaceDq s) \<subseteq> set s"
  by (induction s rule: replaceDq.induct) auto

lemma set_substring: "set (substring s a b) \<subseteq> set s"
  by (auto simp: substring_def Let_def dest: in_set_takeD in_set_dropD)

lemma set_unquote: "set (unquote v) \<subseteq> set v"
  using set_replaceDq [of "substring v 1 (length v - 1)"] set_substring [of v 1 "length v - 1"]
  by (auto simp: unquote_def)

lemma set_scanLine:
  "x \<in> set (scanLine prev inQuote cur vals cs) \<Longrightarrow> x \<in> set vals \<or> set x \<subseteq> set cur \<union> set cs"
proof (induction cs arbitrary: prev inQuote cur vals)
  case Nil
  then show ?case using set_unquote [of "trim cur"] set_trim [of cur] by auto
next
  case (Cons c cs)
  consider (q) "c = dq \<and> prev \<noteq> Some bslash"
    | (d) "\<not> (c = dq \<and> prev \<noteq> Some bslash)" "c = comma \<and> \<not> inQuote"
    | (o) "\<not> (c = dq \<and> prev \<noteq> Some bslash)" "\<not> (c = comma \<and> \<not> inQuote)"
    by blast
  then show ?case
  proof cases
    case q
    with Cons.prems have "x \<in> set (scanLine (Some c) (\<not> inQuote) (cur @ [c]) vals cs)" by simp
    from Cons.IH [OF this] show ?thesis by auto
  next
    case d
    with Cons.prems
    have "x \<in> set (scanLine (Some c) inQuote [] (vals @ [unquote (trim cur)]) cs)" by simp
    from Cons.IH [OF this] show ?thesis
      using set_unquote [of "trim cur"] set_trim [of cur] by auto
  next
    case o
    with Cons.prems have "x \<in> set (scanLine (Some c) inQuote (cur @ [c]) vals cs)" by simp
    from Cons.IH [OF this] show ?thesis by auto
  qed
qed

lemma set_lineValues: "x \<in> set (lineValues line) \<Longrightarrow> set x \<subseteq> set line"
  using set_scanLine [of x None False "[]" "[]" line] by (simp add: lineValues_def)

subsection \<open>The rows of a parsed text\<close>

lemma csvLines_no_nl: "l \<in> set (csvLines csvText) \<Longrightarrow> nl \<notin> set l"
  using splitLines_pieces [of l csvText] by (simp add: csvLines_def)

lemma parseRow_values:
  assumes "nl \<notin> set line"
  shows "\<forall>y \<in> snd ` set (fst (parseRow hs line)). parsedValue y"
  unfolding parseRow_def
  using assms set_lineValues [of _ line] by (intro values_forEachHeader) auto

lemma parseRow_flag: "snd (parseRow hs line) \<Longrightarrow> ''id'' \<in> renameKey ` set hs"
  using forEachHeader_no_id [of hs "lineValues line" 0 "[]" False]
  by (auto simp: parseRow_def)

lemma parseRow_keys: "map fst (fst (parseRow hs line)) = rowKeys [] hs"
  by (simp add: parseRow_def keys_forEachHeader)

text \<open>Every row of the output: its keys, and its values.\<close>

lemma parseCsv_rows:
  assumes "row \<in> set (parseCsv csvText)"
  shows "map fst row = rowKeys [] (csvHeaders csvText)"
    and "''id'' \<in> set (map fst row)"
    and "\<forall>y \<in> snd ` set row. parsedValue y"
proof -
  from assms obtain line where line: "line \<in> set (tl (csvLines csvText))"
    and row: "row = fst (parseRow (csvHeaders csvText) line)"
    and flag: "snd (parseRow (csvHeaders csvText) line)"
    by (auto simp: parseCsv_unfold split: if_splits)
  from line have "line \<in> set (csvLines csvText)" by (cases "csvLines csvText") auto
  then have nonl: "nl \<notin> set line" by (rule csvLines_no_nl)
  show k: "map fst row = rowKeys [] (csvHeaders csvText)" unfolding row by (rule parseRow_keys)
  show "''id'' \<in> set (map fst row)"
    unfolding k using id_in_rowKeys [OF parseRow_flag [OF flag]] .
  show "\<forall>y \<in> snd ` set row. parsedValue y" unfolding row by (rule parseRow_values [OF nonl])
qed

lemma getProp_in: "k \<in> set (map fst row) \<Longrightarrow> getProp row k \<in> snd ` set row"
proof -
  assume "k \<in> set (map fst row)"
  then obtain y where "map_of row k = Some y" by (cases "map_of row k") (auto simp: map_of_eq_None_iff)
  then show ?thesis by (auto simp: getProp_def dest: map_of_SomeD intro: rev_image_eqI)
qed


lemma parseRow_gate:
  assumes "length (filter (\<lambda>k. k = ''id'') (map renameKey hs)) \<le> 1"
  shows "snd (parseRow hs line) = truthy (getProp (fst (parseRow hs line)) ''id'')"
proof (cases "''id'' \<in> set (map renameKey hs)")
  case True
  with forEachHeader_one_id [OF assms, of "lineValues line" 0 "[]"] show ?thesis
    by (simp add: parseRow_def)
next
  case False
  from forEachHeader_no_id [OF False, of "lineValues line" 0 "[]" False] show ?thesis
    by (simp add: parseRow_def getProp_def)
qed

section \<open>The upsert of the export: lemmas\<close>






section \<open>Writing and reading back: lemmas\<close>

lemma formatValue_JStr: "formatValue (JStr x) = fmtS x"
  by (simp add: formatValue_def fmtS_def needsQuotes_def)

lemma scanLine_scanS:
  "quoteSafe prev s \<Longrightarrow> scanLine prev inQuote cur vals s = scanS inQuote cur vals s"
  by (induction s arbitrary: prev inQuote cur vals) auto

lemma quoteSafe_append:
  "quoteSafe prev (a @ b) = (quoteSafe prev a \<and> quoteSafe (if a = [] then prev else Some (last a)) b)"
  by (induction a arbitrary: prev) auto

lemma quoteSafe_plain: "dq \<notin> set s \<Longrightarrow> quoteSafe prev s"
  by (induction s arbitrary: prev) auto

lemma quoteSafe_body:
  "noBsQuote (x @ [dq]) \<Longrightarrow> (hd (x @ [dq]) = dq \<longrightarrow> prev \<noteq> Some bslash) \<Longrightarrow>
     quoteSafe prev (doubleDq x @ [dq])"
proof (induction x arbitrary: prev)
  case Nil
  then show ?case by simp
next
  case (Cons c cs)
  obtain b rest where r: "cs @ [dq] = b # rest" by (cases "cs @ [dq]") auto
  then have hd: "hd (cs @ [dq]) = b" by simp
  from Cons.prems(1) r have nb: "\<not> (c = bslash \<and> b = dq)" and tl: "noBsQuote (cs @ [dq])"
    by simp_all
  show ?case
  proof (cases "c = dq")
    case True
    have "quoteSafe (Some dq) (doubleDq cs @ [dq])" by (rule Cons.IH [OF tl]) simp
    with True Cons.prems(2) show ?thesis by simp
  next
    case False
    have "quoteSafe (Some c) (doubleDq cs @ [dq])" using nb hd by (intro Cons.IH [OF tl]) auto
    with False show ?thesis by simp
  qed
qed

lemma quoteSafe_field:
  "bsSafe x \<Longrightarrow> prev \<noteq> Some bslash \<Longrightarrow> quoteSafe prev (fmtS x)"
  using quoteSafe_body [of x "Some dq"]
  by (auto simp: fmtS_def bsSafe_def needsQuotes_def quoteSafe_plain)

lemma quoteSafe_fields:
  "\<forall>x \<in> set (x0 # xs). bsSafe x \<Longrightarrow> prev \<noteq> Some bslash \<Longrightarrow>
     quoteSafe prev (joinWith comma (map fmtS (x0 # xs)))"
proof (induction xs arbitrary: x0 prev)
  case Nil
  then show ?case by (simp add: quoteSafe_field)
next
  case (Cons y ys)
  have "quoteSafe (Some comma) (joinWith comma (map fmtS (y # ys)))"
    using Cons.prems by (intro Cons.IH) auto
  moreover have "quoteSafe prev (fmtS x0)" using Cons.prems by (intro quoteSafe_field) auto
  ultimately show ?case by (simp add: quoteSafe_append)
qed

subsection \<open>The scan of a written line\<close>

lemma scanS_plain:
  "dq \<notin> set s \<Longrightarrow> comma \<notin> set s \<Longrightarrow>
     scanS inQuote cur vals (s @ rest) = scanS inQuote (cur @ s) vals rest"
  by (induction s arbitrary: cur) auto

lemma scanS_body:
  "scanS True cur vals (doubleDq x @ rest) = scanS True (cur @ doubleDq x) vals rest"
  by (induction x arbitrary: cur) auto

lemma scanS_field:
  "scanS False cur vals (fmtS x @ rest) = scanS False (cur @ fmtS x) vals rest"
proof (cases "needsQuotes x")
  case True
  have "scanS False cur vals (dq # doubleDq x @ dq # rest)
          = scanS True (cur @ [dq]) vals (doubleDq x @ dq # rest)" by simp
  also have "\<dots> = scanS True ((cur @ [dq]) @ doubleDq x) vals (dq # rest)" by (rule scanS_body)
  also have "\<dots> = scanS False (cur @ dq # doubleDq x @ [dq]) vals rest" by simp
  finally show ?thesis using True by (simp add: fmtS_def)
next
  case False
  then show ?thesis by (simp add: fmtS_def needsQuotes_def scanS_plain)
qed

lemma scanS_fields:
  "scanS False [] vals (joinWith comma (map fmtS (x0 # xs)))
     = vals @ map (\<lambda>x. unquote (trim (fmtS x))) (x0 # xs)"
proof (induction xs arbitrary: x0 vals)
  case Nil
  show ?case using scanS_field [of "[]" vals x0 "[]"] by simp
next
  case (Cons y ys)
  have "scanS False [] vals (joinWith comma (map fmtS (x0 # y # ys)))
          = scanS False [] vals (fmtS x0 @ comma # joinWith comma (map fmtS (y # ys)))" by simp
  also have "\<dots> = scanS False ([] @ fmtS x0) vals (comma # joinWith comma (map fmtS (y # ys)))"
    by (rule scanS_field)
  also have "\<dots> = scanS False [] (vals @ [unquote (trim (fmtS x0))]) (joinWith comma (map fmtS (y # ys)))"
    by simp
  also have "\<dots> = (vals @ [unquote (trim (fmtS x0))]) @ map (\<lambda>x. unquote (trim (fmtS x))) (y # ys)"
    by (rule Cons.IH)
  finally show ?case by simp
qed

subsection \<open>Unquoting a written value\<close>

lemma replaceDq_doubleDq: "replaceDq (doubleDq x) = x"
proof (induction x)
  case Nil
  then show ?case by simp
next
  case (Cons c cs)
  show ?case
  proof (cases "c = dq")
    case True
    with Cons.IH show ?thesis by simp
  next
    case False
    with Cons.IH show ?thesis by (cases "doubleDq cs") auto
  qed
qed

lemma substring_inner: "substring (a # body @ [b]) 1 (length (a # body @ [b]) - 1) = body"
  by (simp add: substring_def Let_def)

lemma startsWith_Cons: "startsWith (c # cs) [d] = (c = d)"
  by simp

lemma endsWith_snoc: "endsWith (cs @ [c]) [d] = (c = d)"
  by (simp add: endsWith_def)

lemma unquote_quoted: "unquote (dq # doubleDq x @ [dq]) = x"
proof -
  have "endsWith (dq # doubleDq x @ [dq]) [dq]"
    using endsWith_snoc [of "dq # doubleDq x" dq dq] by simp
  then show ?thesis
    using substring_inner [of dq "doubleDq x" dq]
    by (simp add: unquote_def replaceDq_doubleDq del: length_Cons length_append list.size)
qed

lemma unquote_plain: "dq \<notin> set x \<Longrightarrow> unquote x = x"
  by (cases x) (auto simp: unquote_def)

lemma trim_quoted: "trim (dq # s @ [dq]) = dq # s @ [dq]"
  by (rule trim_trimmed) (simp add: trimmed_def isSpace_def)

lemma unquote_trim_fmtS: "trimmed x \<Longrightarrow> unquote (trim (fmtS x)) = x"
  by (auto simp: fmtS_def trim_quoted unquote_quoted needsQuotes_def trim_trimmed unquote_plain)

text \<open>The values of a written line are the values written.\<close>

lemma lineValues_written:
  assumes "xs \<noteq> []" "\<forall>x \<in> set xs. bsSafe x \<and> trimmed x"
  shows "lineValues (joinWith comma (map fmtS xs)) = xs"
proof -
  from assms(1) obtain x0 ys where xs: "xs = x0 # ys" by (cases xs) auto
  have "quoteSafe None (joinWith comma (map fmtS (x0 # ys)))"
    using assms(2) xs by (intro quoteSafe_fields) auto
  then have "lineValues (joinWith comma (map fmtS xs))
               = scanS False [] [] (joinWith comma (map fmtS (x0 # ys)))"
    by (simp add: lineValues_def xs scanLine_scanS)
  also have "\<dots> = map (\<lambda>x. unquote (trim (fmtS x))) xs"
    unfolding xs using scanS_fields [of "[]" x0 ys] by simp
  also have "\<dots> = xs" using assms(2) by (intro map_idI) (simp add: unquote_trim_fmtS)
  finally show ?thesis .
qed

lemma stringifyCsv_unfold:
  "R \<noteq> [] \<Longrightarrow> stringifyCsv R
     = joinWith nl (joinWith comma (objectKeys (hd R)) # map (rowLine (objectKeys (hd R))) R)"
  by (simp add: stringifyCsv_def rowLine_def [abs_def] Let_def)

subsection \<open>Keys\<close>

lemma set_objectKeys: "set (objectKeys obj) = set (map fst obj)"
  by (auto simp: objectKeys_def Let_def)

lemma distinct_objectKeys: "distinct (map fst obj) \<Longrightarrow> distinct (objectKeys obj)"
  by (auto simp: objectKeys_def Let_def)

lemma map_of_keys:
  assumes "set hs = set (map fst v)"
  shows "map_of (map (\<lambda>h. (h, getProp v h)) hs) = map_of v"
proof
  fix k
  show "map_of (map (\<lambda>h. (h, getProp v h)) hs) k = map_of v k"
  proof (cases "k \<in> set hs")
    case True
    with assms obtain y where y: "map_of v k = Some y"
      by (cases "map_of v k") (auto simp: map_of_eq_None_iff)
    with True show ?thesis by (simp add: map_of_map_restrict getProp_def)
  next
    case False
    with assms have "map_of v k = None" by (simp add: map_of_eq_None_iff)
    with False show ?thesis by (simp add: map_of_map_restrict)
  qed
qed

subsection \<open>Joined lines\<close>

lemma set_joinWith: "set (joinWith sep fs) \<subseteq> insert sep (\<Union> (set ` set fs))"
  by (induction sep fs rule: joinWith.induct) auto

lemma joinWith_contains: "f \<in> set fs \<Longrightarrow> set f \<subseteq> set (joinWith sep fs)"
  by (induction sep fs rule: joinWith.induct) auto

lemma joinWith_last:
  "\<forall>f \<in> set fs. f = [] \<or> last f \<noteq> cr \<Longrightarrow> joinWith comma fs = [] \<or> last (joinWith comma fs) \<noteq> cr"
  by (induction comma fs rule: joinWith.induct) auto

lemma set_doubleDq: "set (doubleDq x) \<subseteq> insert dq (set x)"
  by (induction x) auto

lemma set_fmtS: "set (fmtS x) \<subseteq> insert dq (set x)"
  using set_doubleDq [of x] by (auto simp: fmtS_def)

lemma fmtS_last: "trimmed x \<Longrightarrow> fmtS x = [] \<or> last (fmtS x) \<noteq> cr"
  by (auto simp: fmtS_def trimmed_def isSpace_def)

lemma fmtS_nonblank: "trimmed x \<Longrightarrow> x \<noteq> [] \<Longrightarrow> \<exists>c \<in> set (fmtS x). \<not> isSpace c"
proof (cases "needsQuotes x")
  case True
  then have "dq \<in> set (fmtS x)" by (simp add: fmtS_def)
  moreover have "\<not> isSpace dq" by (simp add: isSpace_def)
  ultimately show ?thesis by blast
next
  case False
  assume "trimmed x" "x \<noteq> []"
  then have "\<not> isSpace (hd x)" "hd x \<in> set x" by (simp_all add: trimmed_def)
  with False show ?thesis by (auto simp: fmtS_def)
qed

subsection \<open>A row read back\<close>

lemma update_fresh: "k \<notin> fst ` set al \<Longrightarrow> AList.update k v al = al @ [(k, v)]"
  by (induction al) auto

lemma forEachHeader_fresh:
  assumes "length xs = length hs" "distinct hs" "set hs \<inter> fst ` set row = {}"
    and "''__proto__'' \<notin> set hs" "''visitorId'' \<notin> set hs" "\<forall>x \<in> set xs. trimmed x"
  shows "forEachHeader (pre @ xs) hs (length pre) row b
           = (row @ zip hs (map JStr xs), b \<or> (\<exists>j<length hs. hs ! j = ''id'' \<and> xs ! j \<noteq> []))"
  using assms
proof (induction hs arbitrary: xs pre row b)
  case Nil
  then show ?case by simp
next
  case (Cons h hs)
  from Cons.prems(1) obtain x xs' where xs: "xs = x # xs'" by (cases xs) auto
  from Cons.prems xs have tx: "trimmed x" by simp
  have hk: "h \<noteq> ''visitorId''" "h \<noteq> ''__proto__''" using Cons.prems by auto
  have hfresh: "h \<notin> fst ` set row" using Cons.prems(3) by auto
  let ?v = "if length pre < length (pre @ xs) \<and> (pre @ xs) ! length pre \<noteq> [] then trim ((pre @ xs) ! length pre) else []"
  have v: "?v = x" using tx by (auto simp: xs trim_trimmed)
  have row': "setProp h (JStr x) row = row @ [(h, JStr x)]"
    using hk hfresh by (simp add: setProp_def update_fresh)
  have IH: "forEachHeader ((pre @ [x]) @ xs') hs (length (pre @ [x])) (row @ [(h, JStr x)]) b'
           = ((row @ [(h, JStr x)]) @ zip hs (map JStr xs'),
              b' \<or> (\<exists>j<length hs. hs ! j = ''id'' \<and> xs' ! j \<noteq> []))" for b'
    using Cons.prems xs by (intro Cons.IH) auto
  have g: "getProp (row @ [(h, JStr x)]) h = JStr x"
    using hfresh by (simp add: getProp_def map_of_append map_add_def map_of_eq_None_iff [THEN iffD2])
  have ex: "(h = ''id'' \<and> x \<noteq> [] \<or> (\<exists>j<length hs. hs ! j = ''id'' \<and> xs' ! j \<noteq> []))
             = (\<exists>j<Suc (length hs). (h # hs) ! j = ''id'' \<and> (x # xs') ! j \<noteq> [])"
    by (auto simp: less_Suc_eq_0_disj)
  show ?case
    using IH [of "b \<or> (h = ''id'' \<and> x \<noteq> [])"] hk g ex
    by (simp add: Let_def v [unfolded xs, simplified] row' xs del: truthy.simps) auto
qed

lemma trimmed_no_cr: "trimmed k \<Longrightarrow> k = [] \<or> last k \<noteq> cr"
  by (auto simp: trimmed_def isSpace_def)

lemma parsed_keys:
  assumes "csvLines csvText \<noteq> []" "k \<in> set (rowKeys [] (csvHeaders csvText))"
  shows "trimmed k \<and> comma \<notin> set k \<and> nl \<notin> set k \<and> k \<noteq> ''visitorId'' \<and> k \<noteq> ''__proto__''"
proof -
  let ?L = "hd (csvLines csvText)"
  from assms(1) have "?L \<in> set (csvLines csvText)" by simp
  then have L: "nl \<notin> set ?L" by (rule csvLines_no_nl)
  from assms(2) set_rowKeys [of "[]" "csvHeaders csvText"]
  have proto: "k \<noteq> ''__proto__''" and "k \<in> renameKey ` set (csvHeaders csvText)" by auto
  then obtain p where p: "p \<in> set (splitOn comma ?L)" and k: "k = renameKey (trim p)"
    by (auto simp: csvHeaders_def)
  from splitOn_pieces [OF p] L set_trim [of p]
  have "comma \<notin> set (trim p)" "nl \<notin> set (trim p)" by auto
  moreover have "trimmed (trim p)" by (rule trimmed_trim)
  moreover have "trimmed ''id''" by (simp add: trimmed_def isSpace_def)
  ultimately show ?thesis using proto unfolding k by (simp add: renameKey_def)
qed

text \<open>A record set as the parser returns it, written and read back.\<close>

lemma roundtrip_rows:
  assumes R: "R = parseCsv csvText" and ne: "R \<noteq> []"
    and ids: "\<forall>v \<in> set R. getProp v ''id'' \<noteq> JStr []"
    and safe: "\<forall>v \<in> set R. \<forall>y \<in> snd ` set v. bsSafe (strOf y)"
  shows "parseCsv (stringifyCsv R) = map (\<lambda>v. map (\<lambda>h. (h, getProp v h)) (objectKeys (hd R))) R"
proof -
  let ?K = "rowKeys [] (csvHeaders csvText)"
  let ?hs = "objectKeys (hd R)"
  let ?header = "joinWith comma ?hs"
  let ?lines = "map (rowLine ?hs) R"
  from R ne have lines: "csvLines csvText \<noteq> []" by (auto simp: parseCsv_unfold split: if_splits)
  have rows: "map fst v = ?K" "''id'' \<in> set ?K" "\<forall>y \<in> snd ` set v. parsedValue y" if "v \<in> set R" for v
    using parseCsv_rows [of v csvText] that R by auto
  from ne have hdR: "hd R \<in> set R" by simp
  have dK: "distinct ?K" by (rule distinct_rowKeys) simp
  have hs_set: "set ?hs = set ?K" using rows(1) [OF hdR] by (simp add: set_objectKeys)
  have hs_dist: "distinct ?hs" using rows(1) [OF hdR] dK by (intro distinct_objectKeys) simp
  have id_hs: "''id'' \<in> set ?hs" using rows(2) [OF hdR] hs_set by simp
  then have hs_ne: "?hs \<noteq> []" by auto
  have keys: "trimmed k \<and> comma \<notin> set k \<and> nl \<notin> set k \<and> k \<noteq> ''visitorId'' \<and> k \<noteq> ''__proto__''"
    if "k \<in> set ?hs" for k
    using parsed_keys [OF lines, of k] that hs_set by simp
  txt \<open>The values of a record under the headers.\<close>
  have val: "\<exists>x. getProp v h = JStr x \<and> trimmed x \<and> nl \<notin> set x \<and> bsSafe x"
    if "v \<in> set R" "h \<in> set ?hs" for v h
  proof -
    from that hs_set rows(1) [OF that(1)] have "h \<in> set (map fst v)" by simp
    then have in_v: "getProp v h \<in> snd ` set v" by (rule getProp_in)
    with rows(3) [OF that(1)] have "parsedValue (getProp v h)" by blast
    moreover from in_v safe that(1) have "bsSafe (strOf (getProp v h))" by blast
    ultimately show ?thesis by (cases "getProp v h") (auto simp: parsedValue_def strOf_def)
  qed
  have sv: "getProp v h = JStr (strOf (getProp v h)) \<and> trimmed (strOf (getProp v h))
            \<and> nl \<notin> set (strOf (getProp v h)) \<and> bsSafe (strOf (getProp v h))"
    if "v \<in> set R" "h \<in> set ?hs" for v h
  proof -
    from val [OF that] obtain x where "getProp v h = JStr x" "trimmed x" "nl \<notin> set x" "bsSafe x"
      by blast
    then show ?thesis by (simp add: strOf_def)
  qed
  have line_eq: "rowLine ?hs v = joinWith comma (map fmtS (map (\<lambda>h. strOf (getProp v h)) ?hs))"
    if "v \<in> set R" for v
  proof -
    have "formatValue (getProp v h) = fmtS (strOf (getProp v h))" if "h \<in> set ?hs" for h
      using sv [OF \<open>v \<in> set R\<close> that] formatValue_JStr [of "strOf (getProp v h)"] by simp
    then show ?thesis by (simp add: rowLine_def comp_def cong: map_cong)
  qed
  txt \<open>The lines written.\<close>
  have header_ok: "nl \<notin> set ?header \<and> (?header = [] \<or> last ?header \<noteq> cr) \<and> trim ?header \<noteq> []"
  proof -
    have "nl \<notin> set ?header" using set_joinWith [of comma ?hs] keys by auto
    moreover have "?header = [] \<or> last ?header \<noteq> cr"
      using keys trimmed_no_cr by (intro joinWith_last) blast
    moreover have "CHR ''i'' \<in> set ?header" using joinWith_contains [OF id_hs, of comma] by auto
    then have "trim ?header \<noteq> []" by (rule trim_nonblank) (simp add: isSpace_def)
    ultimately show ?thesis by blast
  qed
  have line_ok: "nl \<notin> set l \<and> (l = [] \<or> last l \<noteq> cr) \<and> trim l \<noteq> []" if "l \<in> set ?lines" for l
  proof -
    from that obtain v where v: "v \<in> set R" and l: "l = rowLine ?hs v" by auto
    let ?xs = "map (\<lambda>h. strOf (getProp v h)) ?hs"
    have x: "trimmed x \<and> nl \<notin> set x" if "x \<in> set ?xs" for x
      using that sv [OF v] by auto
    have l': "l = joinWith comma (map fmtS ?xs)" unfolding l by (rule line_eq [OF v])
    have "nl \<notin> set f" if "f \<in> set (map fmtS ?xs)" for f
      using that x set_fmtS by fastforce
    then have 1: "nl \<notin> set l" unfolding l' using set_joinWith [of comma "map fmtS ?xs"] by auto
    have "f = [] \<or> last f \<noteq> cr" if "f \<in> set (map fmtS ?xs)" for f
      using that x fmtS_last by auto
    then have 2: "l = [] \<or> last l \<noteq> cr" unfolding l' by (intro joinWith_last) blast
    from val [OF v id_hs] obtain xid where xid: "getProp v ''id'' = JStr xid" "trimmed xid"
      by blast
    from ids v xid(1) have xid3: "xid \<noteq> []" by auto
    from fmtS_nonblank [OF xid(2) xid3] obtain c where c: "c \<in> set (fmtS xid)" "\<not> isSpace c" by blast
    have "fmtS xid \<in> set (map fmtS ?xs)" using id_hs xid(1) by (force simp: strOf_def)
    from joinWith_contains [OF this, of comma] c(1) have "c \<in> set l" unfolding l' by auto
    then have 3: "trim l \<noteq> []" using c(2) by (rule trim_nonblank)
    from 1 2 3 show ?thesis by blast
  qed
  have all_ok: "\<forall>l \<in> set (?header # ?lines). nl \<notin> set l \<and> (l = [] \<or> last l \<noteq> cr)"
    using header_ok line_ok by auto
  have out: "stringifyCsv R = joinWith nl (?header # ?lines)" by (rule stringifyCsv_unfold [OF ne])
  have "splitLines (stringifyCsv R) = ?header # ?lines"
    unfolding out using all_ok by (intro splitLines_join) simp_all
  then have csvLines': "csvLines (stringifyCsv R) = ?header # ?lines"
    using header_ok line_ok by (simp add: csvLines_def filter_id_conv)
  have "splitOn comma ?header = ?hs" using hs_ne keys by (intro splitOn_join) auto
  moreover have "map trim ?hs = ?hs" using keys by (intro map_idI trim_trimmed) blast
  ultimately have headers': "csvHeaders (stringifyCsv R) = ?hs"
    by (simp add: csvHeaders_def csvLines')
  txt \<open>Every line read back.\<close>
  have row_back: "parseRow ?hs (rowLine ?hs v) = (map (\<lambda>h. (h, getProp v h)) ?hs, True)"
    if v: "v \<in> set R" for v
  proof -
    let ?xs = "map (\<lambda>h. strOf (getProp v h)) ?hs"
    have x: "bsSafe x \<and> trimmed x" if "x \<in> set ?xs" for x
      using that sv [OF v] by auto
    have "lineValues (rowLine ?hs v) = ?xs"
      unfolding line_eq [OF v] using hs_ne x by (intro lineValues_written) auto
    moreover have "forEachHeader ([] @ ?xs) ?hs (length ([] :: string list)) [] False
           = ([] @ zip ?hs (map JStr ?xs), False \<or> (\<exists>j<length ?hs. ?hs ! j = ''id'' \<and> ?xs ! j \<noteq> []))"
      using hs_dist keys x by (intro forEachHeader_fresh) auto
    moreover have "zip ?hs (map JStr ?xs) = map (\<lambda>h. (h, getProp v h)) ?hs"
    proof -
      have "JStr (strOf (getProp v h)) = getProp v h" if "h \<in> set ?hs" for h
        using sv [OF v that] by simp
      then have "map JStr ?xs = map (getProp v) ?hs" by (simp add: comp_def cong: map_cong)
      then show ?thesis by (simp add: zip_map2 zip_same_conv_map)
    qed
    moreover have "\<exists>j<length ?hs. ?hs ! j = ''id'' \<and> ?xs ! j \<noteq> []"
    proof -
      from id_hs obtain j where j: "j < length ?hs" "?hs ! j = ''id''" by (auto simp: in_set_conv_nth)
      from sv [OF v id_hs] ids v have "strOf (getProp v ''id'') \<noteq> []" by auto
      with j show ?thesis by auto
    qed
    ultimately show ?thesis by (simp add: parseRow_def)
  qed
  have "map (parseRow ?hs) ?lines = map (\<lambda>v. (map (\<lambda>h. (h, getProp v h)) ?hs, True)) R"
    using row_back by (simp add: comp_def cong: map_cong)
  then show ?thesis
    by (simp add: parseCsv_unfold csvLines' headers' comp_def)
qed

lemma rows_as_listed:
  assumes "distinct (map fst v)"
  shows "map (\<lambda>h. (h, getProp v h)) (map fst v) = v"
  using assms
proof (induction v)
  case Nil
  then show ?case by simp
next
  case (Cons p v)
  obtain k y where p: "p = (k, y)" by (cases p)
  from Cons.prems p have k: "k \<notin> fst ` set v" and d: "distinct (map fst v)" by auto
  have "getProp ((k, y) # v) h = getProp v h" if "h \<in> set (map fst v)" for h
    using that k by (auto simp: getProp_def)
  then have "map (\<lambda>h. (h, getProp ((k, y) # v) h)) (map fst v) = map (\<lambda>h. (h, getProp v h)) (map fst v)"
    by (intro map_cong) auto
  with Cons.IH [OF d] show ?case by (simp add: p getProp_def)
qed

lemma objectKeys_plain: "\<forall>k \<in> set (map fst v). \<not> isArrayIndex k \<Longrightarrow> objectKeys v = map fst v"
proof -
  assume a: "\<forall>k \<in> set (map fst v). \<not> isArrayIndex k"
  then have "filter isArrayIndex (map fst v) = []" by (simp add: filter_empty_conv)
  moreover from a have "filter (\<lambda>k. \<not> isArrayIndex k) (map fst v) = map fst v"
    by (simp add: filter_id_conv)
  ultimately show ?thesis by (simp add: objectKeys_def Let_def)
qed

lemma parseCsv_Nil: "parseCsv [] = []"
  by code_simp

section \<open>The file after an export: lemmas\<close>






























section \<open>Round trip of the codec (C1)\<close>

text \<open>
  C1, as stated, fails. The scanner of \<open>parseCsv\<close> does not toggle at a double quote
  that follows a backslash, while \<open>stringifyCsv\<close> escapes a double quote by doubling it
  and never writes a backslash escape. The text \<open>bsCsv\<close> parses to a record whose field
  \<open>x\<close> is a backslash and a double quote; written and parsed again, the comma after
  that field is read as part of the field, and the field \<open>y\<close> is empty.
\<close>

theorem roundtrip_counterexample:
  "parseCsv bsCsv = [[(''id'', JStr ''1''), (''x'', JStr [bslash, dq]), (''y'', JStr ''b'')]]
   \<and> stringifyCsv (parseCsv bsCsv) = ''id,x,y'' @ [nl] @ ''1,'' @ [dq, bslash, dq, dq, dq] @ '',b''
   \<and> parseCsv (stringifyCsv (parseCsv bsCsv))
       = [[(''id'', JStr ''1''), (''x'', JStr ([dq, bslash, dq, dq, dq] @ '',b'')), (''y'', JStr [])]]
   \<and> parseCsv (stringifyCsv (parseCsv bsCsv)) \<noteq> parseCsv bsCsv
   \<and> getProp (hd (parseCsv (stringifyCsv (parseCsv bsCsv)))) ''y'' \<noteq> getProp (hd (parseCsv bsCsv)) ''y''"
  by code_simp

text \<open>
  C1, amended: let \<open>R\<close> be the output of \<open>parseCsv\<close> on a CSV text, such that every
  record of \<open>R\<close> has a non-empty id and every value that is written in quotes (it holds
  a comma or a double quote) has no backslash directly before a double quote and does not
  end with a backslash. Then parsing \<open>stringifyCsv R\<close> gives \<open>R\<close> again, field for
  field; and exactly \<open>R\<close>, key order included, when no key is an array index (such keys
  are listed first by \<open>Object.keys\<close>).
\<close>

theorem roundtrip_safe:
  assumes "R = parseCsv csvText"
    and "\<forall>v \<in> set R. getProp v ''id'' \<noteq> JStr []"
    and "\<forall>v \<in> set R. \<forall>y \<in> snd ` set v. bsSafe (strOf y)"
  shows "map map_of (parseCsv (stringifyCsv R)) = map map_of R
         \<and> ((\<forall>v \<in> set R. \<forall>k \<in> set (map fst v). \<not> isArrayIndex k) \<longrightarrow> parseCsv (stringifyCsv R) = R)"
proof (cases "R = []")
  case True
  then show ?thesis by (simp add: stringifyCsv_def parseCsv_Nil)
next
  case False
  let ?K = "rowKeys [] (csvHeaders csvText)"
  let ?hs = "objectKeys (hd R)"
  note rb = roundtrip_rows [OF assms(1) False assms(2,3)]
  from False have hdR: "hd R \<in> set R" by simp
  have keys: "map fst v = ?K" if "v \<in> set R" for v
    using parseCsv_rows(1) [of v csvText] that assms(1) by simp
  have dK: "distinct ?K" by (rule distinct_rowKeys) simp
  have "map_of (map (\<lambda>h. (h, getProp v h)) ?hs) = map_of v" if "v \<in> set R" for v
    using keys [OF that] keys [OF hdR] by (intro map_of_keys) (simp add: set_objectKeys)
  then have 1: "map map_of (parseCsv (stringifyCsv R)) = map map_of R"
    unfolding rb by (simp add: comp_def cong: map_cong)
  have 2: "parseCsv (stringifyCsv R) = R" if plain: "\<forall>v \<in> set R. \<forall>k \<in> set (map fst v). \<not> isArrayIndex k"
  proof -
    from plain hdR have "?hs = map fst (hd R)" by (intro objectKeys_plain) blast
    then have hs: "?hs = ?K" using keys [OF hdR] by simp
    have "map (\<lambda>h. (h, getProp v h)) ?hs = v" if "v \<in> set R" for v
      unfolding hs using rows_as_listed [of v] keys [OF that] dK by simp
    then show ?thesis unfolding rb by (simp add: map_idI cong: map_cong)
  qed
  from 1 2 show ?thesis by blast
qed

theorem roundtrip_safe_witness:
  "parseCsv rtCsv = rtRows
   \<and> stringifyCsv rtRows
       = ''id,name,notes'' @ [nl]
         @ ''v1,Ann,'' @ [dq] @ ''likes '' @ [dq, dq] @ ''tea'' @ [dq, dq] @ '', no sugar'' @ [dq] @ [nl]
         @ ''v2,Bob,C:'' @ [bslash] @ ''photos'' @ [bslash] @ ''bob.png''
   \<and> map map_of (parseCsv (stringifyCsv rtRows)) = map map_of rtRows
   \<and> parseCsv (stringifyCsv rtRows) = rtRows"
proof -
  have h1: "rtRows = parseCsv rtCsv" by code_simp
  have "list_all (\<lambda>v. getProp v ''id'' \<noteq> JStr []) rtRows" by code_simp
  then have h2: "\<forall>v \<in> set rtRows. getProp v ''id'' \<noteq> JStr []" by (simp only: list_all_iff)
  have "list_all (\<lambda>v. list_all (\<lambda>y. bsSafe (strOf y)) (map snd v)) rtRows" by code_simp
  then have h3: "\<forall>v \<in> set rtRows. \<forall>y \<in> snd ` set v. bsSafe (strOf y)"
    by (simp only: list_all_iff set_map)
  have "list_all (\<lambda>v. list_all (\<lambda>k. \<not> isArrayIndex k) (map fst v)) rtRows" by code_simp
  then have h4: "\<forall>v \<in> set rtRows. \<forall>k \<in> set (map fst v). \<not> isArrayIndex k"
    by (simp only: list_all_iff)
  have o: "stringifyCsv rtRows
       = ''id,name,notes'' @ [nl]
         @ ''v1,Ann,'' @ [dq] @ ''likes '' @ [dq, dq] @ ''tea'' @ [dq, dq] @ '', no sugar'' @ [dq] @ [nl]
         @ ''v2,Bob,C:'' @ [bslash] @ ''photos'' @ [bslash] @ ''bob.png''"
    by code_simp
  from roundtrip_safe [OF h1 h2 h3] h4 h1 o show ?thesis by simp
qed

section \<open>Atomic import (C2)\<close>

text \<open>
  C2: when the statements of an accepted row in the middle of the batch throw (the rows
  before it having been processed), the \<open>try\<close> block ends with the database holding
  the changes of the rows before it, inside the open transaction; the ROLLBACK of the
  \<open>catch\<close> block puts the rows back as they were when the transaction began, and the
  import ends with the failure message and the database, the local storage and the
  list of visitors as they were before the import. Rows rejected for a missing name are
  skipped, not failures: when the loop over the accepted rows alone completes, the
  import of the whole batch commits its table, saves it and reports the number of
  accepted rows.
\<close>

theorem import_atomic:
  "(txn (db s) = None \<and> csvData \<noteq> [] \<and> parseCsv_script csvData = pre @ v # post
      \<and> importLoop throws rnd pre (rows (db s)) k 0 = Inr (tbl1, k1, n1)
      \<and> \<not> rejected v \<and> throws tbl1 (toText (fst (resolveId rnd k1 v))) v
    \<longrightarrow> importBody throws rnd k (parseCsv_script csvData) (db s)
            = (\<lparr>rows = tbl1, txn = Some (rows (db s))\<rparr>, Inl SqlError)
        \<and> dbRollback \<lparr>rows = tbl1, txn = Some (rows (db s))\<rparr> = Inr (db s)
        \<and> handleImport throws rnd k csvData s = Inr (s\<lparr>messageBox := Some ImportFailed\<rparr>))
   \<and> (txn (db s) = None \<and> csvData \<noteq> []
      \<and> importLoop throws rnd (filter (\<lambda>v. \<not> rejected v) (parseCsv_script csvData)) (rows (db s)) k 0
           = Inr (tbl, k', n)
    \<longrightarrow> handleImport throws rnd k csvData s
          = Inr (s\<lparr>db := \<lparr>rows = tbl, txn = None\<rparr>, localStorage := Some tbl,
                   visitorsList := tbl, messageBox := Some (Imported n)\<rparr>))"
proof (intro conjI impI)
  assume a: "txn (db s) = None \<and> csvData \<noteq> [] \<and> parseCsv_script csvData = pre @ v # post
      \<and> importLoop throws rnd pre (rows (db s)) k 0 = Inr (tbl1, k1, n1)
      \<and> \<not> rejected v \<and> throws tbl1 (toText (fst (resolveId rnd k1 v))) v"
  then have loop: "importLoop throws rnd (parseCsv_script csvData) (rows (db s)) k 0
                     = Inl (SqlError, tbl1)"
    by (simp add: importLoop_append Let_def)
  from a loop show "importBody throws rnd k (parseCsv_script csvData) (db s)
            = (\<lparr>rows = tbl1, txn = Some (rows (db s))\<rparr>, Inl SqlError)"
    by (simp add: importBody_loop)
  have "\<lparr>rows = rows (db s), txn = None\<rparr> = db s" using a by simp
  then show "dbRollback \<lparr>rows = tbl1, txn = Some (rows (db s))\<rparr> = Inr (db s)"
    by (simp add: dbRollback_def)
  from a loop show "handleImport throws rnd k csvData s = Inr (s\<lparr>messageBox := Some ImportFailed\<rparr>)"
    by (simp add: handleImport_failed)
next
  assume a: "txn (db s) = None \<and> csvData \<noteq> []
      \<and> importLoop throws rnd (filter (\<lambda>v. \<not> rejected v) (parseCsv_script csvData)) (rows (db s)) k 0
           = Inr (tbl, k', n)"
  then have "importLoop throws rnd (parseCsv_script csvData) (rows (db s)) k 0 = Inr (tbl, k', n)"
    by (simp add: importLoop_skips_rejected)
  with a show "handleImport throws rnd k csvData s
          = Inr (s\<lparr>db := \<lparr>rows = tbl, txn = None\<rparr>, localStorage := Some tbl,
                   visitorsList := tbl, messageBox := Some (Imported n)\<rparr>)"
    by (simp add: handleImport_committed)
qed

theorem import_atomic_witness:
  "importBody sqljsThrows draws 0 (parseCsv_script shortRowCsv) (db janeApp)
     = (\<lparr>rows = [janeRow\<lparr>isBanned := Some 1, notes' := Some ''late''\<rparr>, bobRow],
         txn = Some [janeRow]\<rparr>, Inl SqlError)
   \<and> [janeRow\<lparr>isBanned := Some 1, notes' := Some ''late''\<rparr>, bobRow] \<noteq> [janeRow]
   \<and> rows (db janeApp) = [janeRow]
   \<and> handleImport sqljsThrows draws 0 shortRowCsv janeApp = Inr (janeApp\<lparr>messageBox := Some ImportFailed\<rparr>)
   \<and> handleImport sqljsThrows draws 0 namelessRowCsv janeApp
       = Inr (janeApp\<lparr>db := \<lparr>rows = [janeRow\<lparr>isBanned := Some 1, notes' := Some ''late''\<rparr>, carlRow], txn = None\<rparr>,
                      localStorage := Some [janeRow\<lparr>isBanned := Some 1, notes' := Some ''late''\<rparr>, carlRow],
                      visitorsList := [janeRow\<lparr>isBanned := Some 1, notes' := Some ''late''\<rparr>, carlRow],
                      messageBox := Some (Imported 2)\<rparr>)"
proof -
  let ?vs = "parseCsv_script shortRowCsv"
  let ?t1 = "[janeRow\<lparr>isBanned := Some 1, notes' := Some ''late''\<rparr>, bobRow]"
  let ?t2 = "[janeRow\<lparr>isBanned := Some 1, notes' := Some ''late''\<rparr>, carlRow]"
  have h1: "txn (db janeApp) = None" by (simp add: janeApp_def)
  have r: "rows (db janeApp) = [janeRow]" by (simp add: janeApp_def)
  have h2: "shortRowCsv \<noteq> []" by (simp add: shortRowCsv_def fullHeader_def)
  have h3: "?vs = take 2 ?vs @ (?vs ! 2) # drop 3 ?vs" by code_simp
  have h4: "importLoop sqljsThrows draws (take 2 ?vs) (rows (db janeApp)) 0 0 = Inr (?t1, 0, 2)"
    by code_simp
  have h5: "\<not> rejected (?vs ! 2)" by code_simp
  have h6: "sqljsThrows ?t1 (toText (fst (resolveId draws 0 (?vs ! 2)))) (?vs ! 2)" by code_simp
  have g2: "namelessRowCsv \<noteq> []" by (simp add: namelessRowCsv_def fullHeader_def)
  have g3: "importLoop sqljsThrows draws (filter (\<lambda>v. \<not> rejected v) (parseCsv_script namelessRowCsv))
              (rows (db janeApp)) 0 0 = Inr (?t2, 0, 2)"
    by code_simp
  have ne: "?t1 \<noteq> [janeRow]" by simp
  from import_atomic [where s = janeApp and csvData = shortRowCsv and pre = "take 2 ?vs"
        and v = "?vs ! 2" and post = "drop 3 ?vs" and throws = sqljsThrows and rnd = draws
        and k = 0 and ?tbl1.0 = ?t1 and ?k1.0 = 0 and ?n1.0 = 2, THEN conjunct1]
      h1 h2 h3 h4 h5 h6
  have c0: "importBody sqljsThrows draws 0 ?vs (db janeApp)
              = (\<lparr>rows = ?t1, txn = Some (rows (db janeApp))\<rparr>, Inl SqlError)"
    and c1: "handleImport sqljsThrows draws 0 shortRowCsv janeApp = Inr (janeApp\<lparr>messageBox := Some ImportFailed\<rparr>)"
    by blast+
  have c2: "handleImport sqljsThrows draws 0 namelessRowCsv janeApp
       = Inr (janeApp\<lparr>db := \<lparr>rows = ?t2, txn = None\<rparr>, localStorage := Some ?t2,
                      visitorsList := ?t2, messageBox := Some (Imported 2)\<rparr>)"
    using import_atomic [where s = janeApp and csvData = namelessRowCsv and throws = sqljsThrows
        and rnd = draws and k = 0 and tbl = ?t2 and k' = 0 and n = 2, THEN conjunct2]
      h1 g2 g3 by blast
  from c0 [unfolded r] c1 c2 ne r show ?thesis by blast
qed

section \<open>The id gate of the parser (C3)\<close>

text \<open>
  C3, as stated, fails. In \<open>parseCsv\<close> of main.js the flag \<open>hasId\<close> is set by any
  column that resolves to \<open>id\<close>, and a later such column overwrites the field: under the
  header \<open>id,id\<close> the data line \<open>7,\<close> gives a record whose id is empty. The parser of
  script.js, which the import uses, has no gate: the data line \<open>,Jane\<close> gives a record
  with an empty id.
\<close>

theorem id_gate_counterexample:
  "parseCsv (''id,id'' @ [nl] @ ''7,'') = [[(''id'', JStr [])]]
   \<and> parseCsv_script (''id,firstName'' @ [nl] @ '',Jane'')
       = [[(''id'', JStr []), (''firstName'', JStr ''Jane'')]]"
  by code_simp

text \<open>
  C3, amended: when at most one column of the header resolves to \<open>id\<close>, the output of
  \<open>parseCsv\<close> (main.js) is the rows of the data lines, in order, without those whose
  resolved id is empty, whatever their other fields hold. The parser of script.js
  returns one record for every data line.
\<close>

theorem parse_id_gate:
  "(length (filter (\<lambda>k. k = ''id'') (map renameKey (csvHeaders csvText))) \<le> 1 \<longrightarrow>
      parseCsv csvText
        = filter (\<lambda>row. truthy (getProp row ''id''))
            (map (\<lambda>line. fst (parseRow (csvHeaders csvText) line)) (tl (csvLines csvText))))
   \<and> length (parseCsv_script csvText) = length (splitOn nl (trim csvText)) - 1"
proof (intro conjI impI)
  assume a: "length (filter (\<lambda>k. k = ''id'') (map renameKey (csvHeaders csvText))) \<le> 1"
  let ?f = "parseRow (csvHeaders csvText)"
  have "filter snd (map ?f ls) = map ?f (filter (\<lambda>line. truthy (getProp (fst (?f line)) ''id'')) ls)" for ls
    by (induction ls) (simp_all add: parseRow_gate [OF a])
  then show "parseCsv csvText
        = filter (\<lambda>row. truthy (getProp row ''id''))
            (map (\<lambda>line. fst (?f line)) (tl (csvLines csvText)))"
    by (simp add: parseCsv_unfold filter_map comp_def)
next
  show "length (parseCsv_script csvText) = length (splitOn nl (trim csvText)) - 1"
    by (simp add: parseCsv_script_def Let_def)
qed

theorem parse_id_gate_witness:
  "length (filter (\<lambda>k. k = ''id'') (map renameKey (csvHeaders gateCsv))) \<le> 1
   \<and> map (\<lambda>line. fst (parseRow (csvHeaders gateCsv) line)) (tl (csvLines gateCsv))
       = [[(''id'', JStr ''1''), (''name'', JStr ''Ann'')],
          [(''id'', JStr []), (''name'', JStr ''Bob'')],
          [(''id'', JStr ''2''), (''name'', JStr ''Cy'')]]
   \<and> parseCsv gateCsv
       = [[(''id'', JStr ''1''), (''name'', JStr ''Ann'')], [(''id'', JStr ''2''), (''name'', JStr ''Cy'')]]
   \<and> length (parseCsv_script gateCsv) = 3"
proof -
  have h: "length (filter (\<lambda>k. k = ''id'') (map renameKey (csvHeaders gateCsv))) \<le> 1"
    by code_simp
  have m: "map (\<lambda>line. fst (parseRow (csvHeaders gateCsv) line)) (tl (csvLines gateCsv))
       = [[(''id'', JStr ''1''), (''name'', JStr ''Ann'')],
          [(''id'', JStr []), (''name'', JStr ''Bob'')],
          [(''id'', JStr ''2''), (''name'', JStr ''Cy'')]]"
    by code_simp
  have n: "length (splitOn nl (trim gateCsv)) - 1 = 3" by code_simp
  from parse_id_gate [of gateCsv] h
  have e: "parseCsv gateCsv
        = filter (\<lambda>row. truthy (getProp row ''id''))
            (map (\<lambda>line. fst (parseRow (csvHeaders gateCsv) line)) (tl (csvLines gateCsv)))"
    and l: "length (parseCsv_script gateCsv) = length (splitOn nl (trim gateCsv)) - 1"
    by blast+
  have "parseCsv gateCsv
       = [[(''id'', JStr ''1''), (''name'', JStr ''Ann'')], [(''id'', JStr ''2''), (''name'', JStr ''Cy'')]]"
    unfolding e m by (simp add: getProp_def)
  with h m l n show ?thesis by simp
qed

section \<open>Quoted fields (C4)\<close>

text \<open>
  C4, as stated, fails: under the header \<open>h1,h2,h3\<close> no column resolves to \<open>id\<close>, so the
  data line \<open>1,"x""y",2\<close> is dropped by the id gate of \<open>parseCsv\<close> and the output is
  empty; the parser of the renderer keeps the row but leaves the quotes in place.
\<close>

theorem quoted_row_without_id_dropped:
  "parseCsv (quotedCsv ''h1,h2,h3'') = []
   \<and> parseCsv_script (quotedCsv ''h1,h2,h3'')
       = [[(''h1'', JStr ''1''), (''h2'', JStr ([dq] @ ''x'' @ [dq, dq] @ ''y'' @ [dq])), (''h3'', JStr ''2'')]]"
  by code_simp

text \<open>
  C4, amended: under the header \<open>id,h2,h3\<close> the data line \<open>1,"x""y",2\<close> parses to the
  record with \<open>id\<close> = \<open>1\<close>, \<open>h2\<close> = \<open>x"y\<close> (quotes stripped, the doubled quote
  unescaped) and \<open>h3\<close> = \<open>2\<close>; the data line \<open>a,"b,c",d\<close> parses to \<open>h2\<close> = \<open>b,c\<close>
  (the comma inside the quotes is no delimiter); under the header \<open>h1,h2,h3\<close> the
  output of \<open>parseCsv\<close> is empty.
\<close>

theorem quoted_field_parsed:
  "parseCsv (quotedCsv ''id,h2,h3'')
     = [[(''id'', JStr ''1''), (''h2'', JStr (''x'' @ [dq] @ ''y'')), (''h3'', JStr ''2'')]]
   \<and> parseCsv (''id,h2,h3'' @ [nl] @ ''a,'' @ [dq] @ ''b,c'' @ [dq] @ '',d'')
     = [[(''id'', JStr ''a''), (''h2'', JStr ''b,c''), (''h3'', JStr ''d'')]]
   \<and> parseCsv (quotedCsv ''h1,h2,h3'') = []"
  by code_simp

section \<open>Importing the same CSV twice (C5)\<close>

text \<open>
  C5, as stated, fails: a row without an id is stored under a fresh identifier at every
  import. Importing \<open>anonCsv\<close> once into the empty store leaves one record, importing it
  a second time leaves two.
\<close>

theorem import_twice_counterexample:
  "handleImport sqljsThrows draws 0 anonCsv emptyApp
     = Inr (imported [anonRow ''01234567-89ab-4cde-b012-3456789abcde''] 1)
   \<and> handleImport sqljsThrows draws 31 anonCsv (imported [anonRow ''01234567-89ab-4cde-b012-3456789abcde''] 1)
     = Inr (imported [anonRow ''01234567-89ab-4cde-b012-3456789abcde'',
                      anonRow ''f0123456-789a-4bcd-af01-23456789abcd''] 1)
   \<and> length (rows (db (imported [anonRow ''01234567-89ab-4cde-b012-3456789abcde''] 1))) = 1
   \<and> length (rows (db (imported [anonRow ''01234567-89ab-4cde-b012-3456789abcde'',
                                   anonRow ''f0123456-789a-4bcd-af01-23456789abcd''] 1))) = 2"
  by code_simp

text \<open>
  C5, amended: when every row of the CSV text that has a first and a last name also
  has a non-empty id, a second import of the same text (whatever the random draws)
  leaves the database, the saved copy and the list of visitors as the first import
  left them.
\<close>

theorem import_twice_with_ids:
  assumes "txn (db s) = None"
    and "allIdsSupplied (parseCsv_script csvData)"
    and "handleImport throws rnd k csvData s = Inr s1"
  shows "\<exists>s2. handleImport throws rnd' k' csvData s1 = Inr s2
            \<and> db s2 = db s1 \<and> localStorage s2 = localStorage s1
            \<and> visitorsList s2 = visitorsList s1"
proof (cases "csvData = []")
  case True
  with assms(3) show ?thesis by (simp add: handleImport_def)
next
  case False
  let ?vs = "parseCsv_script csvData"
  show ?thesis
  proof (cases "importLoop throws rnd ?vs (rows (db s)) k 0")
    case (Inl e)
    from assms(3) have s1: "s1 = s\<lparr>messageBox := Some ImportFailed\<rparr>"
      by (simp add: handleImport_failed [OF assms(1) False Inl])
    have "importLoop throws rnd' ?vs (rows (db s)) k' 0 = Inl e"
      using importLoop_supplied [OF assms(2), of throws rnd' "rows (db s)" k' 0 rnd k] Inl
      by simp
    then have "handleImport throws rnd' k' csvData s1 = Inr (s1\<lparr>messageBox := Some ImportFailed\<rparr>)"
      using assms(1) False unfolding s1 by (intro handleImport_failed) simp_all
    then show ?thesis by simp
  next
    case (Inr res)
    obtain t k1 n1 where res: "res = (t, k1, n1)" by (cases res) auto
    note first = Inr [unfolded res]
    from assms(3) have s1: "s1 = s\<lparr>db := \<lparr>rows = t, txn = None\<rparr>, localStorage := Some t,
                                   visitorsList := t, messageBox := Some (Imported n1)\<rparr>"
      by (simp add: handleImport_committed [OF assms(1) False first])
    have txn1: "txn (db s1) = None" and rows1: "rows (db s1) = t" by (simp_all add: s1)
    show ?thesis
    proof (cases "importLoop throws rnd' ?vs t k' 0")
      case (Inl e)
      then have "handleImport throws rnd' k' csvData s1 = Inr (s1\<lparr>messageBox := Some ImportFailed\<rparr>)"
        using txn1 False rows1 by (intro handleImport_failed) simp_all
      then show ?thesis by simp
    next
      case (Inr res2)
      obtain t2 k2 n2 where res2: "res2 = (t2, k2, n2)" by (cases res2) auto
      note second = Inr [unfolded res2]
      have "t2 = t" by (rule importLoop_idempotent [OF assms(2) first second])
      with second have "importLoop throws rnd' ?vs (rows (db s1)) k' 0 = Inr (t, k2, n2)"
        by (simp add: rows1)
      from handleImport_committed [OF txn1 False this]
      show ?thesis by (simp add: s1)
    qed
  qed
qed

theorem import_twice_with_ids_witness:
  "txn (db janeApp) = None
   \<and> allIdsSupplied (parseCsv_script notesCsv)
   \<and> handleImport sqljsThrows draws 0 notesCsv janeApp
       = Inr (imported [janeRow\<lparr>isBanned := Some 1, notes' := Some ''late''\<rparr>, bobRow] 2)
   \<and> handleImport sqljsThrows draws 0 notesCsv
         (imported [janeRow\<lparr>isBanned := Some 1, notes' := Some ''late''\<rparr>, bobRow] 2)
       = Inr (imported [janeRow\<lparr>isBanned := Some 1, notes' := Some ''late''\<rparr>, bobRow] 2)
   \<and> (\<exists>s2. handleImport sqljsThrows draws 0 notesCsv
               (imported [janeRow\<lparr>isBanned := Some 1, notes' := Some ''late''\<rparr>, bobRow] 2) = Inr s2
          \<and> db s2 = db (imported [janeRow\<lparr>isBanned := Some 1, notes' := Some ''late''\<rparr>, bobRow] 2)
          \<and> localStorage s2 = localStorage (imported [janeRow\<lparr>isBanned := Some 1, notes' := Some ''late''\<rparr>, bobRow] 2)
          \<and> visitorsList s2 = visitorsList (imported [janeRow\<lparr>isBanned := Some 1, notes' := Some ''late''\<rparr>, bobRow] 2))"
proof -
  let ?s1 = "imported [janeRow\<lparr>isBanned := Some 1, notes' := Some ''late''\<rparr>, bobRow] 2"
  have h1: "txn (db janeApp) = None" by (simp add: janeApp_def)
  have h2: "allIdsSupplied (parseCsv_script notesCsv)" by code_simp
  have h3: "handleImport sqljsThrows draws 0 notesCsv janeApp = Inr ?s1" by code_simp
  have h4: "handleImport sqljsThrows draws 0 notesCsv ?s1 = Inr ?s1" by code_simp
  from import_twice_with_ids [OF h1 h2 h3, of draws 0] h1 h2 h3 h4 show ?thesis by blast
qed

section \<open>Search (C6)\<close>

text \<open>
  C6: with the stored records Jane Doe and Janet Smith (whatever their other fields),
  the query \<open>jane doe\<close> shows the first record alone, as the selected profile, and the
  query \<open>ja\<close> shows the list of both records and selects nothing.
\<close>

theorem search_exact_and_candidates:
  "handleSearch ''jane doe''
      (s\<lparr>visitorsList := [a\<lparr>firstName := Some ''Jane'', lastName := Some ''Doe''\<rparr>,
                           b\<lparr>firstName := Some ''Janet'', lastName := Some ''Smith''\<rparr>]\<rparr>)
     = Inr (ProfileShown (a\<lparr>firstName := Some ''Jane'', lastName := Some ''Doe''\<rparr>),
            s\<lparr>visitorsList := [a\<lparr>firstName := Some ''Jane'', lastName := Some ''Doe''\<rparr>,
                           b\<lparr>firstName := Some ''Janet'', lastName := Some ''Smith''\<rparr>],
              selectedVisitorId := id' a\<rparr>)
   \<and> handleSearch ''ja''
      (s\<lparr>visitorsList := [a\<lparr>firstName := Some ''Jane'', lastName := Some ''Doe''\<rparr>,
                           b\<lparr>firstName := Some ''Janet'', lastName := Some ''Smith''\<rparr>]\<rparr>)
     = Inr (ResultsShown [a\<lparr>firstName := Some ''Jane'', lastName := Some ''Doe''\<rparr>,
                           b\<lparr>firstName := Some ''Janet'', lastName := Some ''Smith''\<rparr>],
            s\<lparr>visitorsList := [a\<lparr>firstName := Some ''Jane'', lastName := Some ''Doe''\<rparr>,
                           b\<lparr>firstName := Some ''Janet'', lastName := Some ''Smith''\<rparr>]\<rparr>)"
proof -
  have l1: "toLowerCase ''Jane'' = ''jane''" by code_simp
  have l2: "toLowerCase ''Doe'' = ''doe''" by code_simp
  have l3: "toLowerCase ''Janet'' = ''janet''" by code_simp
  have l4: "toLowerCase ''Smith'' = ''smith''" by code_simp
  have t1: "trim (toLowerCase ''jane doe'') = ''jane doe''" by code_simp
  have t2: "trim (toLowerCase ''ja'') = ''ja''" by code_simp
  have w1: "splitWords [] [] ''jane doe'' = [''jane'', ''doe'']" by code_simp
  have w2: "splitWords [] [] ''ja'' = [''ja'']" by code_simp
  show ?thesis
    by (simp add: handleSearch_def matchesAll_def nameIncludes_def isSpace_def Let_def
          l1 l2 l3 l4 t1 t2 w1 w2)
qed

section \<open>Upsert and save (C7)\<close>




section \<open>Export without a remembered file (C8)\<close>

text \<open>
  C8: when no file path is remembered, the single-record export returns the failure
  result with its error message, and the state of the main process is unchanged: no
  call of the file system is made and no file changes.
\<close>

theorem export_without_path_fails:
  assumes "lastUsedFilePath s = None"
  shows "updateAndSaveCsvFile updatedVisitor s
           = (SaveError ''No file has been selected for saving yet.'', s)
         \<and> fsCalls (snd (updateAndSaveCsvFile updatedVisitor s)) = fsCalls s
         \<and> files (snd (updateAndSaveCsvFile updatedVisitor s)) = files s"
  using assms by (simp add: updateAndSaveCsvFile_def noFileSelected_def)

theorem export_without_path_fails_witness:
  "lastUsedFilePath noFileState = None
   \<and> updateAndSaveCsvFile [(''id'', JStr ''v1'')] noFileState
       = (SaveError ''No file has been selected for saving yet.'', noFileState)
   \<and> fsCalls (snd (updateAndSaveCsvFile [(''id'', JStr ''v1'')] noFileState)) = []"
proof -
  have h: "lastUsedFilePath noFileState = None" by (simp add: noFileState_def)
  have c: "fsCalls noFileState = []" by (simp add: noFileState_def)
  show ?thesis
    using h c export_without_path_fails [OF h, of "[(''id'', JStr ''v1'')]"] by simp
qed

section \<open>General notes under import (C9)\<close>

text \<open>
  C9: the UPDATE of a row whose id is in the table leaves every row's general notes
  (and ids) as they were; the INSERT of a row whose id is not in the table appends a row
  whose general notes are the empty string, whatever the CSV row holds. For the whole
  batch: after an import, the rows that were in the table keep their place, id and
  general notes, and every row added has empty general notes.
\<close>

theorem import_generalNotes:
  "(selectById visitorId tbl \<noteq> [] \<longrightarrow>
      map generalNotes (upsertRow visitorId v tbl) = map generalNotes tbl
      \<and> map id' (upsertRow visitorId v tbl) = map id' tbl)
   \<and> (selectById visitorId tbl = [] \<longrightarrow>
      upsertRow visitorId v tbl = tbl @ [insertRow visitorId v (bannedFlag v)]
      \<and> generalNotes (insertRow visitorId v (bannedFlag v)) = Some [])
   \<and> (txn (db s) = None \<and> handleImport throws rnd k csvData s = Inr s' \<longrightarrow>
      (\<exists>new. map id' (rows (db s')) = map id' (rows (db s)) @ new
          \<and> map generalNotes (rows (db s'))
              = map generalNotes (rows (db s)) @ replicate (length new) (Some [])))"
proof (intro conjI impI)
  assume a: "txn (db s) = None \<and> handleImport throws rnd k csvData s = Inr s'"
  show "\<exists>new. map id' (rows (db s')) = map id' (rows (db s)) @ new
          \<and> map generalNotes (rows (db s'))
              = map generalNotes (rows (db s)) @ replicate (length new) (Some [])"
  proof (cases "csvData = []")
    case True
    with a show ?thesis by (simp add: handleImport_def)
  next
    case False
    show ?thesis
    proof (cases "importLoop throws rnd (parseCsv_script csvData) (rows (db s)) k 0")
      case (Inl e)
      with a False show ?thesis by (auto simp: handleImport_failed)
    next
      case (Inr res)
      obtain t k' n where res: "res = (t, k', n)" by (cases res) auto
      from importLoop_ids [OF Inr [unfolded res]] obtain new where
        new: "map id' t = map id' (rows (db s)) @ new" ..
      from importLoop_generalNotes [OF Inr [unfolded res]] obtain m where
        m: "map generalNotes t = map generalNotes (rows (db s)) @ replicate m (Some [])" ..
      have "length (map id' t) = length (map generalNotes t)" by simp
      then have "length new = m" unfolding new m by simp
      with new m a False Inr res show ?thesis by (auto simp: handleImport_committed)
    qed
  qed
qed (simp_all add: generalNotes_updateRow id_updateRow upsertRow_def insertRow_def)

theorem import_generalNotes_witness:
  "handleImport sqljsThrows draws 0 notesCsv janeApp
     = Inr (janeApp\<lparr>db := \<lparr>rows = [janeRow\<lparr>isBanned := Some 1, notes' := Some ''late''\<rparr>, bobRow], txn = None\<rparr>,
                    localStorage := Some [janeRow\<lparr>isBanned := Some 1, notes' := Some ''late''\<rparr>, bobRow],
                    visitorsList := [janeRow\<lparr>isBanned := Some 1, notes' := Some ''late''\<rparr>, bobRow],
                    messageBox := Some (Imported 2)\<rparr>)
   \<and> getProp (parseCsv_script notesCsv ! 0) ''generalNotes'' = JStr ''changed''
   \<and> getProp (parseCsv_script notesCsv ! 1) ''generalNotes'' = JStr ''hello''
   \<and> (\<exists>new. [Some ''v1'', Some ''v2''] = [Some ''v1''] @ new
         \<and> [Some ''VIP'', Some []] = [Some ''VIP''] @ replicate (length new) (Some []))"
proof -
  let ?t = "[janeRow\<lparr>isBanned := Some 1, notes' := Some ''late''\<rparr>, bobRow]"
  let ?s' = "janeApp\<lparr>db := \<lparr>rows = ?t, txn = None\<rparr>, localStorage := Some ?t,
                     visitorsList := ?t, messageBox := Some (Imported 2)\<rparr>"
  have h1: "txn (db janeApp) = None" by (simp add: janeApp_def)
  have h2: "handleImport sqljsThrows draws 0 notesCsv janeApp = Inr ?s'" by code_simp
  have g1: "getProp (parseCsv_script notesCsv ! 0) ''generalNotes'' = JStr ''changed''" by code_simp
  have g2: "getProp (parseCsv_script notesCsv ! 1) ''generalNotes'' = JStr ''hello''" by code_simp
  have e1: "map id' (rows (db ?s')) = [Some ''v1'', Some ''v2'']"
    by (simp add: janeRow_def bobRow_def)
  have e2: "map generalNotes (rows (db ?s')) = [Some ''VIP'', Some []]"
    by (simp add: janeRow_def bobRow_def)
  have e3: "map id' (rows (db janeApp)) = [Some ''v1'']" by (simp add: janeApp_def janeRow_def)
  have e4: "map generalNotes (rows (db janeApp)) = [Some ''VIP'']" by (simp add: janeApp_def janeRow_def)
  from import_generalNotes [where s = janeApp and throws = sqljsThrows and rnd = draws and k = 0
      and csvData = notesCsv and s' = ?s', THEN conjunct2, THEN conjunct2] h1 h2
  have "\<exists>new. map id' (rows (db ?s')) = map id' (rows (db janeApp)) @ new
          \<and> map generalNotes (rows (db ?s'))
              = map generalNotes (rows (db janeApp)) @ replicate (length new) (Some [])"
    by blast
  then have "\<exists>new. [Some ''v1'', Some ''v2''] = [Some ''v1''] @ new
         \<and> [Some ''VIP'', Some []] = [Some ''VIP''] @ replicate (length new) (Some [])"
    unfolding e1 e2 e3 e4 .
  with h2 g1 g2 show ?thesis by blast
qed

section \<open>Identifiers of imported records (C10)\<close>

text \<open>
  C10: the id an accepted row is stored under is the row's own id when that is a
  non-empty string, and otherwise the string \<open>uuidv4\<close> returns, which has the
  version-4 format and 36 characters; in both cases it is a non-empty string. The
  statements of the row touch only rows with that id, so every row of the table after
  the loop either was in the table before or has a non-empty id.
\<close>

theorem import_ids_nonempty:
  "(getProp v ''id'' = JStr i \<and> i \<noteq> [] \<longrightarrow> toText (fst (resolveId rnd k v)) = Some i)
   \<and> (\<not> truthy (getProp v ''id'') \<longrightarrow>
        toText (fst (resolveId rnd k v)) = Some (fst (uuidv4 rnd k)))
   \<and> isUuidV4 (fst (uuidv4 rnd k)) \<and> length (fst (uuidv4 rnd k)) = 36
   \<and> (\<exists>j. toText (fst (resolveId rnd k v)) = Some j \<and> j \<noteq> [])
   \<and> (\<forall>r \<in> set (upsertRow (toText (fst (resolveId rnd k v))) v tbl).
         r \<in> set tbl \<or> id' r = toText (fst (resolveId rnd k v)))
   \<and> (importLoop throws rnd vs tbl k n = Inr (tbl', k', n') \<longrightarrow>
        (\<forall>r \<in> set tbl'. r \<in> set tbl \<or> (\<exists>j. id' r = Some j \<and> j \<noteq> [])))"
proof -
  have a: "getProp v ''id'' = JStr i \<and> i \<noteq> [] \<longrightarrow> toText (fst (resolveId rnd k v)) = Some i"
    by (simp add: resolveId_def toText_def)
  have b: "\<not> truthy (getProp v ''id'') \<longrightarrow>
        toText (fst (resolveId rnd k v)) = Some (fst (uuidv4 rnd k))"
    by (simp add: resolveId_def toText_def)
  have c: "\<forall>r \<in> set (upsertRow (toText (fst (resolveId rnd k v))) v tbl).
         r \<in> set tbl \<or> id' r = toText (fst (resolveId rnd k v))"
    using upsertRow_rows by blast
  have d: "importLoop throws rnd vs tbl k n = Inr (tbl', k', n') \<longrightarrow>
        (\<forall>r \<in> set tbl'. r \<in> set tbl \<or> (\<exists>j. id' r = Some j \<and> j \<noteq> []))"
    using importLoop_new_rows by blast
  from a b c d uuidv4_format uuidv4_length resolveId_nonempty show ?thesis by blast
qed

theorem import_ids_nonempty_witness:
  "toText (fst (resolveId draws 0 [(''id'', JStr ''v7''), (''firstName'', JStr ''Ann'')])) = Some ''v7''
   \<and> toText (fst (resolveId draws 0 [(''id'', JStr []), (''firstName'', JStr ''Ann'')]))
       = Some ''01234567-89ab-4cde-b012-3456789abcde''
   \<and> isUuidV4 ''01234567-89ab-4cde-b012-3456789abcde''
   \<and> length ''01234567-89ab-4cde-b012-3456789abcde'' = 36
   \<and> importLoop sqljsThrows draws (parseCsv_script notesCsv) [janeRow] 0 0
       = Inr ([janeRow\<lparr>isBanned := Some 1, notes' := Some ''late''\<rparr>, bobRow], 0, 2)
   \<and> id' (janeRow\<lparr>isBanned := Some 1, notes' := Some ''late''\<rparr>) = Some ''v1''
   \<and> id' bobRow = Some ''v2''"
proof -
  let ?a = "[(''id'', JStr ''v7''), (''firstName'', JStr ''Ann'')]"
  let ?b = "[(''id'', JStr []), (''firstName'', JStr ''Ann'')]"
  have u: "fst (uuidv4 draws 0) = ''01234567-89ab-4cde-b012-3456789abcde''" by code_simp
  have a1: "getProp ?a ''id'' = JStr ''v7'' \<and> ''v7'' \<noteq> []" by (simp add: getProp_def)
  have b1: "\<not> truthy (getProp ?b ''id'')" by (simp add: getProp_def)
  have l: "importLoop sqljsThrows draws (parseCsv_script notesCsv) [janeRow] 0 0
       = Inr ([janeRow\<lparr>isBanned := Some 1, notes' := Some ''late''\<rparr>, bobRow], 0, 2)"
    by code_simp
  note A = import_ids_nonempty [where v = ?a and i = "''v7''" and rnd = draws and k = 0]
  note B = import_ids_nonempty [where v = ?b and rnd = draws and k = 0]
  from A a1 have c1: "toText (fst (resolveId draws 0 ?a)) = Some ''v7''" by blast
  from B b1 have c2: "toText (fst (resolveId draws 0 ?b)) = Some (fst (uuidv4 draws 0))" by blast
  from B have c3: "isUuidV4 (fst (uuidv4 draws 0))" and c4: "length (fst (uuidv4 draws 0)) = 36"
    by blast+
  have c5: "id' (janeRow\<lparr>isBanned := Some 1, notes' := Some ''late''\<rparr>) = Some ''v1''"
    by (simp add: janeRow_def)
  have c6: "id' bobRow = Some ''v2''" by (simp add: bobRow_def)
  from c1 c2 c3 c4 c5 c6 l show ?thesis unfolding u by blast
qed

end
